theory Spec2Isabelle
  imports Complex_Main "HOL-Library.Sublist"
begin

section \<open>The text sanitizer: \<open>clean_tweet\<close>\<close>

text \<open>
  The source (notebook "Exploring Twitter Data with Vector Databases and RAG Systems"):
  \<^verbatim>\<open>
  def clean_tweet(text):
      url_pattern = r'http[s]?://(?:[a-zA-Z]|[0-9]|[$-_@.&+]|[!*\\(\\),]|(?:%[0-9a-fA-F][0-9a-fA-F]))+'
      return re.sub(url_pattern, '', text)
  \<close>
  Text is a \<open>string\<close>; a code point beyond ASCII stands as its UTF-8 bytes, none of
  which is a character of the pattern, so matches begin and end where they do in Python.
\<close>

definition in_range :: "char \<Rightarrow> char \<Rightarrow> char \<Rightarrow> bool" where
  "in_range lo hi c = ((of_char lo :: nat) \<le> of_char c \<and> (of_char c :: nat) \<le> of_char hi)"

text \<open>The first four alternatives of the group, each one character wide.\<close>

definition alt_letter :: "char \<Rightarrow> bool" where
  "alt_letter c = (in_range CHR ''a'' CHR ''z'' c \<or> in_range CHR ''A'' CHR ''Z'' c)"

definition alt_digit :: "char \<Rightarrow> bool" where
  "alt_digit c = in_range CHR ''0'' CHR ''9'' c"

definition alt_symbol :: "char \<Rightarrow> bool" where
  "alt_symbol c = (in_range CHR ''$'' CHR ''_'' c \<or> c \<in> set ''@.&+'')"

definition alt_punct :: "char \<Rightarrow> bool" where
  "alt_punct c = (c \<in> set [CHR ''!'', CHR ''*'', CHR 0x5C, CHR ''('', CHR 0x5C, CHR '')'', CHR '',''])"

definition url_char :: "char \<Rightarrow> bool" where
  "url_char c = (alt_letter c \<or> alt_digit c \<or> alt_symbol c \<or> alt_punct c)"

definition hex_digit :: "char \<Rightarrow> bool" where
  "hex_digit c = (in_range CHR ''0'' CHR ''9'' c \<or> in_range CHR ''a'' CHR ''f'' c
                  \<or> in_range CHR ''A'' CHR ''F'' c)"

text \<open>The fifth alternative, a percent escape, three characters wide.\<close>

definition pct_escape :: "string \<Rightarrow> bool" where
  "pct_escape s = (case s of
      c # h1 # h2 # _ \<Rightarrow> c = CHR ''%'' \<and> hex_digit h1 \<and> hex_digit h2
    | _ \<Rightarrow> False)"

text \<open>
  The greedy repetition of the group: how many characters it consumes at the head of the
  text. The alternatives are tried in the pattern's order. Nothing follows the group in
  the pattern, so the first greedy path is the match and no backtracking takes place.
\<close>

fun url_run :: "string \<Rightarrow> nat" where
  "url_run [] = 0"
| "url_run (c # cs) =
     (if alt_letter c \<or> alt_digit c \<or> alt_symbol c \<or> alt_punct c then 1 + url_run cs
      else if pct_escape (c # cs) then 3 + url_run (drop 2 cs)
      else 0)"

text \<open>
  A match of the whole pattern at the head of the text, as its length: the scheme with
  the optional \<open>s\<close> taken first, then at least one repetition of the group.
\<close>

definition match_at :: "string \<Rightarrow> nat option" where
  "match_at s =
     (if take 8 s = ''https://'' \<and> 0 < url_run (drop 8 s) then Some (8 + url_run (drop 8 s))
      else if take 7 s = ''http://'' \<and> 0 < url_run (drop 7 s) then Some (7 + url_run (drop 7 s))
      else None)"

text \<open>
  \<open>re.sub(url_pattern, '', text)\<close>: scanning from the left, a match is dropped and the
  scan goes on behind it; where there is no match the character is kept.
\<close>

function clean_tweet :: "string \<Rightarrow> string" where
  "clean_tweet [] = []"
| "clean_tweet (c # cs) =
     (case match_at (c # cs) of
        Some n \<Rightarrow> clean_tweet (drop n (c # cs))
      | None \<Rightarrow> c # clean_tweet cs)"
  by pat_completeness auto
termination
  by (relation "measure length") (auto simp: match_at_def split: if_splits)

text \<open>
  The same pattern described without a matcher, by the positions of the text. The class
  of the group is the exclamation mark, the ASCII characters from \<open>$\<close> to \<open>_\<close> (which
  hold the digits, the capital letters and most punctuation) and the small letters. A
  URL of the pattern starts where the text reads \<open>http://\<close> or \<open>https://\<close>, in small
  letters, and a character of the class follows.
\<close>

definition in_url_class :: "char \<Rightarrow> bool" where
  "in_url_class c =
     ((of_char c :: nat) = 0x21 \<or> (0x24 \<le> (of_char c :: nat) \<and> (of_char c :: nat) \<le> 0x5F)
      \<or> (0x61 \<le> (of_char c :: nat) \<and> (of_char c :: nat) \<le> 0x7A))"

definition scheme_then_class :: "string \<Rightarrow> string \<Rightarrow> bool" where
  "scheme_then_class sch s =
     (take (length sch) s = sch
      \<and> (case drop (length sch) s of [] \<Rightarrow> False | x # _ \<Rightarrow> in_url_class x))"

definition url_start :: "string \<Rightarrow> bool" where
  "url_start s = (scheme_then_class ''https://'' s \<or> scheme_then_class ''http://'' s)"

text \<open>
  The character at position \<open>i\<close> is removed when a URL of the pattern starts at or before
  it and only characters of the class lie from that start up to \<open>i\<close>.
\<close>

definition removed_at :: "string \<Rightarrow> nat \<Rightarrow> bool" where
  "removed_at t i =
     (i < length t
      \<and> (\<exists>j \<in> {..i}. url_start (drop j t) \<and> (\<forall>k \<in> {j..i}. in_url_class (t ! k))))"

section \<open>The external services and what the code sees of them\<close>

text \<open>
  Every exception a client library raises is a value; the text of \<open>PyException\<close> is what
  \<open>str(e)\<close> gives. An embedding is a list of floats the code only passes on, never
  computes with; it stands here as a list of reals.
\<close>

datatype py_exception = PyException string | DuplicateKeyError | EOFError

type_synonym vector = "real list"

text \<open>A chat message, the dict \<open>{"role": ..., "content": ...}\<close>.\<close>

record message =
  role :: string
  content :: string

text \<open>
  The aggregation pipeline of \<open>vector_search\<close>: the \<open>$vectorSearch\<close> stage and the
  \<open>$project\<close> stage.
\<close>

record pipeline =
  vs_index :: string
  vs_queryVector :: vector
  vs_path :: string
  vs_numCandidates :: nat
  vs_limit :: nat
  project_id :: nat
  project_tweet_text :: nat

text \<open>A projected result document \<open>{'tweet': {'text': ...}}\<close>.\<close>

record hit =
  hit_tweet_text :: string

text \<open>
  The hosted services as the code calls them, each returning or raising:
  \<open>client.embeddings.create(input=text, model=embedding_model).data[0].embedding\<close>,
  \<open>list(tweet_collection.aggregate(pipeline))\<close> and
  \<open>client.chat.completions.create(model=chat_model, messages=...).choices[0].message.content\<close>.
  \<open>py_str\<close> is Python's \<open>str\<close> of the result list, as the f-string formats it.
\<close>

record services =
  embeddings_create :: "string \<Rightarrow> py_exception + vector"
  aggregate :: "pipeline \<Rightarrow> py_exception + hit list"
  chat_completions_create :: "message list \<Rightarrow> py_exception + string"
  py_str :: "hit list \<Rightarrow> string"

text \<open>The stored document \<open>{tweet: {id, text, embedding?, ...}, user: {id, username, ...}}\<close>.\<close>

datatype emb_field = Absent | Null | Vector vector

record tweet =
  tweet_id :: string
  tweet_text :: string
  author_id :: string
  created_at :: string
  tweet_emb :: emb_field

record user =
  user_id :: string
  username :: string

record document =
  doc_tweet :: tweet
  doc_user :: user

text \<open>What a run does to the outside, in order: the calls it issues and the lines it prints.\<close>

datatype event =
    EmbeddingsCreate string
  | Aggregate pipeline
  | ChatCompletionsCreate "message list"
  | UpdateOne string emb_field
  | InsertOne document
  | Print string
  | Input string

section \<open>Retrieval: \<open>get_embedding\<close> and \<open>vector_search\<close>\<close>

text \<open>
  \<^verbatim>\<open>
  def get_embedding(text):
      try:
          embedding = client.embeddings.create(input=text, model=embedding_model).data[0].embedding
          return embedding
      except Exception as e:
          print(f"Error in get_embedding: {e}")
          return None
  \<close>
\<close>

definition str_of_exception :: "py_exception \<Rightarrow> string" where
  "str_of_exception e =
     (case e of PyException s \<Rightarrow> s | DuplicateKeyError \<Rightarrow> ''DuplicateKeyError'' | EOFError \<Rightarrow> '''')"

definition get_embedding :: "services \<Rightarrow> string \<Rightarrow> vector option \<times> event list" where
  "get_embedding env txt =
     (case embeddings_create env txt of
        Inr embedding \<Rightarrow> (Some embedding, [EmbeddingsCreate txt])
      | Inl e \<Rightarrow> (None, [EmbeddingsCreate txt, Print (''Error in get_embedding: '' @ str_of_exception e)]))"

text \<open>
  \<^verbatim>\<open>
  def vector_search(query):
      query_embedding = get_embedding(query)
      if query_embedding is None:
          return "Invalid query or embedding generation failed."
      pipeline = [
          {"$vectorSearch": {"index": "tweet_vector", "queryVector": query_embedding,
                             "path": "tweet.embedding", "numCandidates": 1000, "limit": 10}},
          {"$project": {"_id": 0, "tweet.text": 1}}
      ]
      results = tweet_collection.aggregate(pipeline)
      return list(results)
  \<close>
  The function returns either a string or a list; an exception of the aggregation is
  not caught.
\<close>

datatype search_result = Message string | Hits "hit list"

definition vector_pipeline :: "vector \<Rightarrow> pipeline" where
  "vector_pipeline query_embedding =
     \<lparr>vs_index = ''tweet_vector'', vs_queryVector = query_embedding,
      vs_path = ''tweet.embedding'', vs_numCandidates = 1000, vs_limit = 10,
      project_id = 0, project_tweet_text = 1\<rparr>"

definition vector_search :: "services \<Rightarrow> string \<Rightarrow> (py_exception + search_result) \<times> event list" where
  "vector_search env query =
     (case get_embedding env query of
        (None, tr) \<Rightarrow> (Inr (Message ''Invalid query or embedding generation failed.''), tr)
      | (Some query_embedding, tr) \<Rightarrow>
          (case aggregate env (vector_pipeline query_embedding) of
             Inl e \<Rightarrow> (Inl e, tr @ [Aggregate (vector_pipeline query_embedding)])
           | Inr results \<Rightarrow> (Inr (Hits results), tr @ [Aggregate (vector_pipeline query_embedding)])))"

section \<open>The chat operation: \<open>chat_history\<close> and \<open>chatbot\<close>\<close>

text \<open>
  \<^verbatim>\<open>
  delimiter = '###'
  chat_history = [{"role": "system", "content": """you are a chabot answer user questions based on the returned tweets"""}]

  def chatbot(prompt):
      chat_history.append({"role": "user", "content": prompt})
      tweets = vector_search(prompt)
      chat_history.append({"role": "system", "content": f"here the returned tweets delimitered by {delimiter}{tweets}{delimiter}"})
      response = client.chat.completions.create(model=chat_model, messages=chat_history)
      reply = response.choices[0].message.content
      chat_history.append({"role": "assistant", "content": reply})
      return reply
  \<close>
  The global list is passed in and returned. The retrieved-context turn carries the role
  \<open>system\<close>, as the instruction turn does.
\<close>

definition delimiter :: string where
  "delimiter = ''###''"

definition system_instruction :: message where
  "system_instruction =
     \<lparr>role = ''system'',
      content = ''you are a chabot answer user questions based on the returned tweets''\<rparr>"

definition chat_history0 :: "message list" where
  "chat_history0 = [system_instruction]"

definition user_turn :: "string \<Rightarrow> message" where
  "user_turn prompt = \<lparr>role = ''user'', content = prompt\<rparr>"

definition format_tweets :: "services \<Rightarrow> search_result \<Rightarrow> string" where
  "format_tweets env tweets = (case tweets of Message s \<Rightarrow> s | Hits hs \<Rightarrow> py_str env hs)"

definition context_turn :: "services \<Rightarrow> search_result \<Rightarrow> message" where
  "context_turn env tweets =
     \<lparr>role = ''system'',
      content = ''here the returned tweets delimitered by '' @ delimiter
                @ format_tweets env tweets @ delimiter\<rparr>"

definition assistant_turn :: "string \<Rightarrow> message" where
  "assistant_turn reply = \<lparr>role = ''assistant'', content = reply\<rparr>"

definition chatbot ::
  "services \<Rightarrow> string \<Rightarrow> message list \<Rightarrow> (py_exception + string) \<times> message list \<times> event list" where
  "chatbot env prompt chat_history =
     (let h1 = chat_history @ [user_turn prompt] in
      case vector_search env prompt of
        (Inl e, tr) \<Rightarrow> (Inl e, h1, tr)
      | (Inr tweets, tr) \<Rightarrow>
          (let h2 = h1 @ [context_turn env tweets] in
           case chat_completions_create env h2 of
             Inl e \<Rightarrow> (Inl e, h2, tr @ [ChatCompletionsCreate h2])
           | Inr reply \<Rightarrow> (Inr reply, h2 @ [assistant_turn reply], tr @ [ChatCompletionsCreate h2])))"

text \<open>
  A session is the global list over a sequence of \<open>chatbot\<close> calls, each under the
  services as they answer at that moment; the outcomes are collected.
\<close>

fun chat_calls ::
  "(services \<times> string) list \<Rightarrow> message list \<Rightarrow> (py_exception + string) list \<times> message list" where
  "chat_calls [] h = ([], h)"
| "chat_calls ((env, prompt) # calls) h =
     (case chatbot env prompt h of
        (r, h', tr) \<Rightarrow> (case chat_calls calls h' of (rs, h'') \<Rightarrow> (r # rs, h'')))"

text \<open>
  \<^verbatim>\<open>
  while True:
      user_input = input("You: ")
      if user_input.lower() in ['exit', 'quit']:
          print("Chatbot: Goodbye!")
          break
      reply = chatbot(user_input)
      print(f"Chatbot: {reply}")
  \<close>
  The lines of standard input come paired with the services as they answer when the line
  is handled; \<open>input\<close> at the end of the input raises \<open>EOFError\<close>. \<open>lower\<close> maps the
  letters \<open>A\<close> to \<open>Z\<close>; Python's \<open>str.lower\<close> also maps letters beyond ASCII, none of
  them to a letter of \<open>exit\<close> or \<open>quit\<close>, so the test of the loop is the same.
\<close>

definition lower_char :: "char \<Rightarrow> char" where
  "lower_char c = (if in_range CHR ''A'' CHR ''Z'' c then char_of (of_char c + (32::nat)) else c)"

definition lower :: "string \<Rightarrow> string" where
  "lower s = map lower_char s"

datatype loop_end = Goodbye | Raised py_exception

fun cli_loop ::
  "(services \<times> string) list \<Rightarrow> message list \<Rightarrow> loop_end \<times> message list \<times> event list" where
  "cli_loop [] h = (Raised EOFError, h, [Input ''You: ''])"
| "cli_loop ((env, user_input) # rest) h =
     (if lower user_input \<in> set [''exit'', ''quit'']
      then (Goodbye, h, [Input ''You: '', Print ''Chatbot: Goodbye!''])
      else (case chatbot env user_input h of
              (Inl e, h', tr) \<Rightarrow> (Raised e, h', Input ''You: '' # tr)
            | (Inr reply, h', tr) \<Rightarrow>
                (case cli_loop rest h' of
                   (e, h'', tr') \<Rightarrow>
                     (e, h'', Input ''You: '' # tr @ Print (''Chatbot: '' @ reply) # tr'))))"

section \<open>The tweet collection: ingestion and embedding backfill\<close>

text \<open>
  The collection is the list of its documents in insertion order. The source creates it
  with a unique index on the tweet id:
  \<^verbatim>\<open>
  tweet_collection.create_index([("tweet.id", pymongo.ASCENDING)],unique = True)
  \<close>
  so \<open>insert_one\<close> raises \<open>DuplicateKeyError\<close> when the id is stored already. Any write
  may also fail in transport: \<open>fault\<close> says, by tweet id, with which exception.
\<close>

definition stored_ids :: "document list \<Rightarrow> string list" where
  "stored_ids coll = map (\<lambda>d. tweet_id (doc_tweet d)) coll"

definition insert_one ::
  "(string \<Rightarrow> py_exception option) \<Rightarrow> document list \<Rightarrow> document \<Rightarrow> py_exception + document list" where
  "insert_one fault coll d =
     (case fault (tweet_id (doc_tweet d)) of
        Some e \<Rightarrow> Inl e
      | None \<Rightarrow>
          if tweet_id (doc_tweet d) \<in> set (stored_ids coll) then Inl DuplicateKeyError
          else Inr (coll @ [d]))"

text \<open>
  The body of both collection cells, over one page of the search response:
  \<^verbatim>\<open>
  for user, tweet in zip(tweets.includes['users'],tweets.data):
      tweet_json = {}
      tweet_json['tweet']= tweet.data
      tweet_json['user'] = user.data
      try:
          tweet_collection.insert_one(tweet_json)
          print(tweet_json['tweet']['created_at'])
      except:
          pass
  \<close>
\<close>

fun store_pairs ::
  "(string \<Rightarrow> py_exception option) \<Rightarrow> (user \<times> tweet) list \<Rightarrow> document list
     \<Rightarrow> document list \<times> event list" where
  "store_pairs fault [] coll = (coll, [])"
| "store_pairs fault ((u, t) # rest) coll =
     (let tweet_json = \<lparr>doc_tweet = t, doc_user = u\<rparr> in
      case insert_one fault coll tweet_json of
        Inr coll' \<Rightarrow>
          (case store_pairs fault rest coll' of
             (c, tr) \<Rightarrow> (c, InsertOne tweet_json # Print (created_at t) # tr))
      | Inl e \<Rightarrow>
          (case store_pairs fault rest coll of
             (c, tr) \<Rightarrow> (c, InsertOne tweet_json # tr)))"

definition store_page ::
  "(string \<Rightarrow> py_exception option) \<Rightarrow> user list \<Rightarrow> tweet list \<Rightarrow> document list
     \<Rightarrow> document list \<times> event list" where
  "store_page fault users data coll = store_pairs fault (zip users data) coll"

text \<open>The document the loop builds from a pair of the zip.\<close>

definition mk_doc :: "user \<times> tweet \<Rightarrow> document" where
  "mk_doc p = \<lparr>doc_tweet = snd p, doc_user = fst p\<rparr>"

text \<open>The documents a run tried to insert, in order.\<close>

fun insert_attempts :: "event list \<Rightarrow> document list" where
  "insert_attempts [] = []"
| "insert_attempts (InsertOne d # tr) = d # insert_attempts tr"
| "insert_attempts (_ # tr) = insert_attempts tr"

text \<open>
  The backfill of the embeddings:
  \<^verbatim>\<open>
  tweets = tweet_collection.find()
  for tweet in tqdm(list(tweets)):
      try:
          tweet_embedding = get_embedding(clean_tweet(tweet['tweet']['text']))
          tweet_collection.update_one(
              {'tweet.id':tweet['tweet']['id']},
              {"$set":{'tweet.embedding':tweet_embedding}}
          )
      except:
          print(f"""error in embedding tweet {tweet['tweet']['id']}""")
          pass
  \<close>
  \<open>update_one\<close> changes the first document the filter selects. \<open>get_embedding\<close> returns
  \<open>None\<close> on failure, which is then stored as the embedding.
\<close>

fun set_embedding :: "string \<Rightarrow> emb_field \<Rightarrow> document list \<Rightarrow> document list" where
  "set_embedding tid e [] = []"
| "set_embedding tid e (d # ds) =
     (if tweet_id (doc_tweet d) = tid
      then d\<lparr>doc_tweet := (doc_tweet d)\<lparr>tweet_emb := e\<rparr>\<rparr> # ds
      else d # set_embedding tid e ds)"

definition update_one ::
  "(string \<Rightarrow> py_exception option) \<Rightarrow> document list \<Rightarrow> string \<Rightarrow> emb_field
     \<Rightarrow> py_exception + document list" where
  "update_one fault coll tid e =
     (case fault tid of Some ex \<Rightarrow> Inl ex | None \<Rightarrow> Inr (set_embedding tid e coll))"

definition field_of :: "vector option \<Rightarrow> emb_field" where
  "field_of v = (case v of None \<Rightarrow> Null | Some x \<Rightarrow> Vector x)"

fun embed_tweets ::
  "services \<Rightarrow> (string \<Rightarrow> py_exception option) \<Rightarrow> document list \<Rightarrow> document list
     \<Rightarrow> document list \<times> event list" where
  "embed_tweets env fault [] coll = (coll, [])"
| "embed_tweets env fault (d # ds) coll =
     (case get_embedding env (clean_tweet (tweet_text (doc_tweet d))) of
        (tweet_embedding, tr) \<Rightarrow>
          (case update_one fault coll (tweet_id (doc_tweet d)) (field_of tweet_embedding) of
             Inr coll' \<Rightarrow>
               (case embed_tweets env fault ds coll' of
                  (c, tr') \<Rightarrow>
                    (c, tr @ UpdateOne (tweet_id (doc_tweet d)) (field_of tweet_embedding) # tr'))
           | Inl ex \<Rightarrow>
               (case embed_tweets env fault ds coll of
                  (c, tr') \<Rightarrow>
                    (c, tr @ UpdateOne (tweet_id (doc_tweet d)) (field_of tweet_embedding)
                          # Print (''error in embedding tweet '' @ tweet_id (doc_tweet d)) # tr'))))"

definition embed_collection ::
  "services \<Rightarrow> (string \<Rightarrow> py_exception option) \<Rightarrow> document list \<Rightarrow> document list \<times> event list" where
  "embed_collection env fault coll = embed_tweets env fault coll coll"

text \<open>The texts a run sent to the embedding provider, in order.\<close>

fun embedded_texts :: "event list \<Rightarrow> string list" where
  "embedded_texts [] = []"
| "embedded_texts (EmbeddingsCreate t # tr) = t # embedded_texts tr"
| "embedded_texts (_ # tr) = embedded_texts tr"

text \<open>The updates a run asked the collection for: tweet id and new embedding field.\<close>

fun update_requests :: "event list \<Rightarrow> (string \<times> emb_field) list" where
  "update_requests [] = []"
| "update_requests (UpdateOne tid e # tr) = (tid, e) # update_requests tr"
| "update_requests (_ # tr) = update_requests tr"

section \<open>The kinds of turn and the ordering the specification asks for\<close>

text \<open>
  The specification names four kinds of turn. In the code a turn of role \<open>user\<close> is the
  user input, one of role \<open>assistant\<close> the reply, and of the turns of role \<open>system\<close> the
  instruction is the one the history is created with; the others carry retrieved context.
\<close>

datatype turn_kind = SystemInstruction | UserInput | RetrievedContext | AssistantReply

definition kind :: "message \<Rightarrow> turn_kind" where
  "kind m =
     (if role m = ''user'' then UserInput
      else if role m = ''assistant'' then AssistantReply
      else if m = system_instruction then SystemInstruction
      else RetrievedContext)"

text \<open>User and assistant turns alternate, the user turn first.\<close>

fun alternate :: "turn_kind list \<Rightarrow> bool" where
  "alternate [] = True"
| "alternate [UserInput] = True"
| "alternate (UserInput # AssistantReply # ks) = alternate ks"
| "alternate _ = False"

text \<open>
  Every retrieved-context turn comes immediately after a user turn and, when a turn
  follows it, immediately before an assistant turn.
\<close>

fun context_between :: "turn_kind \<Rightarrow> turn_kind list \<Rightarrow> bool" where
  "context_between prev [] = True"
| "context_between prev (RetrievedContext # ks) =
     (prev = UserInput \<and> (case ks of [] \<Rightarrow> True | k # _ \<Rightarrow> k = AssistantReply)
      \<and> context_between RetrievedContext ks)"
| "context_between prev (k # ks) = context_between k ks"

definition conversation_ordered :: "message list \<Rightarrow> bool" where
  "conversation_ordered h =
     (case map kind h of
        [] \<Rightarrow> False
      | k # ks \<Rightarrow>
          k = SystemInstruction \<and> SystemInstruction \<notin> set ks
          \<and> alternate (filter (\<lambda>k. k = UserInput \<or> k = AssistantReply) ks)
          \<and> context_between SystemInstruction ks)"

text \<open>
  What holds after failed calls too: a retrieved-context turn only ever follows a user
  turn, an assistant turn only ever follows a retrieved-context turn, and no further
  instruction turn appears.
\<close>

fun appended_in_order :: "turn_kind \<Rightarrow> turn_kind list \<Rightarrow> bool" where
  "appended_in_order prev [] = True"
| "appended_in_order prev (k # ks) =
     ((case k of
         SystemInstruction \<Rightarrow> False
       | UserInput \<Rightarrow> True
       | RetrievedContext \<Rightarrow> prev = UserInput
       | AssistantReply \<Rightarrow> prev = RetrievedContext)
      \<and> appended_in_order k ks)"

section \<open>The URL-shaped substrings the specification speaks of\<close>

text \<open>
  The specification asks that URL-shaped substrings be removed and says no more about
  their shape. Here a text is URL-shaped when it is the scheme \<open>http://\<close> or \<open>https://\<close>,
  in letters of either case (RFC 3986, section 3.1), followed by one or more of the
  characters a URL consists of (RFC 3986, section 2): letters, digits,
  \<open>- . _ ~\<close>, \<open>: / ? # [ ] @\<close>, \<open>! $ & ' ( ) * + , ; =\<close> and \<open>%\<close>. A blank, \<open><\<close>, \<open>>\<close> and the
  bytes of an emoji are no such characters.
\<close>

definition spec_url_char :: "char \<Rightarrow> bool" where
  "spec_url_char c =
     (in_range CHR ''a'' CHR ''z'' c \<or> in_range CHR ''A'' CHR ''Z'' c \<or> in_range CHR ''0'' CHR ''9'' c
      \<or> c \<in> set ''-._~'' \<or> c \<in> set '':/?#[]@''
      \<or> c \<in> set (CHR 0x27 # ''!$&()*+,;='') \<or> c = CHR ''%'')"

definition spec_url_shaped :: "string \<Rightarrow> bool" where
  "spec_url_shaped u =
     ((lower (take 8 u) = ''https://'' \<and> drop 8 u \<noteq> [] \<and> list_all spec_url_char (drop 8 u))
      \<or> (lower (take 7 u) = ''http://'' \<and> drop 7 u \<noteq> [] \<and> list_all spec_url_char (drop 7 u)))"

section \<open>Services and pages to run the definitions on\<close>

definition demo_hits :: "hit list" where
  "demo_hits = [\<lparr>hit_tweet_text = ''a''\<rparr>, \<lparr>hit_tweet_text = ''b''\<rparr>, \<lparr>hit_tweet_text = ''c''\<rparr>]"

definition services_up :: services where
  "services_up =
     \<lparr>embeddings_create = (\<lambda>t. Inr [1 / 2, 1 / 4]),
      aggregate = (\<lambda>p. Inr (take (vs_limit p) demo_hits)),
      chat_completions_create = (\<lambda>ms. Inr ''ok''),
      py_str = (\<lambda>hs. concat (map hit_tweet_text hs))\<rparr>"

definition completion_down :: services where
  "completion_down =
     services_up\<lparr>chat_completions_create := (\<lambda>ms. Inl (PyException ''rate limit''))\<rparr>"

definition index_down :: services where
  "index_down = services_up\<lparr>aggregate := (\<lambda>p. Inl (PyException ''index unavailable''))\<rparr>"

definition embedding_down :: services where
  "embedding_down = services_up\<lparr>embeddings_create := (\<lambda>t. Inl (PyException ''network error''))\<rparr>"

definition no_fault :: "string \<Rightarrow> py_exception option" where
  "no_fault tid = None"

definition alice :: user where
  "alice = \<lparr>user_id = ''1'', username = ''alice''\<rparr>"

definition bob :: user where
  "bob = \<lparr>user_id = ''2'', username = ''bob''\<rparr>"

definition tweet1 :: tweet where
  "tweet1 = \<lparr>tweet_id = ''101'', tweet_text = ''see https://example.com/x now'', author_id = ''1'',
             created_at = ''2025-03-31T18:55:28.000Z'', tweet_emb = Absent\<rparr>"

definition tweet2 :: tweet where
  "tweet2 = \<lparr>tweet_id = ''102'', tweet_text = ''second'', author_id = ''1'',
             created_at = ''2025-03-31T18:55:01.000Z'', tweet_emb = Absent\<rparr>"

definition tweet3 :: tweet where
  "tweet3 = \<lparr>tweet_id = ''103'', tweet_text = ''third'', author_id = ''2'',
             created_at = ''2025-03-31T18:53:54.000Z'', tweet_emb = Absent\<rparr>"

section \<open>Properties of the sanitizer\<close>

lemma url_char_scheme: "\<forall>c \<in> set ''https://''. url_char c"
  by (simp add: url_char_def alt_letter_def alt_symbol_def in_range_def)

lemma pct_escape_symbol: "pct_escape (c # cs) \<Longrightarrow> alt_symbol c"
  by (auto simp: pct_escape_def alt_symbol_def in_range_def split: list.splits)

lemma url_run_takeWhile: "url_run s = length (takeWhile url_char s)"
  by (induction s) (auto simp: url_char_def dest: pct_escape_symbol)

lemma match_at_SomeD:
  assumes "match_at s = Some n"
  obtains sch r where "s = sch @ r" "sch = ''https://'' \<or> sch = ''http://''"
    "takeWhile url_char r \<noteq> []" "n = length sch + length (takeWhile url_char r)"
proof (cases "take 8 s = ''https://'' \<and> 0 < url_run (drop 8 s)")
  case True
  then have "s = ''https://'' @ drop 8 s"
    by (metis append_take_drop_id)
  moreover have "takeWhile url_char (drop 8 s) \<noteq> []"
    using True by (simp add: url_run_takeWhile)
  moreover have "n = length ''https://'' + length (takeWhile url_char (drop 8 s))"
    using True assms by (simp add: match_at_def url_run_takeWhile)
  ultimately show ?thesis using that by blast
next
  case False
  then have *: "take 7 s = ''http://'' \<and> 0 < url_run (drop 7 s)"
    and n: "n = 7 + url_run (drop 7 s)"
    using assms by (auto simp: match_at_def split: if_splits)
  then have "s = ''http://'' @ drop 7 s"
    by (metis append_take_drop_id)
  moreover have "takeWhile url_char (drop 7 s) \<noteq> []"
    using * by (simp add: url_run_takeWhile)
  moreover have "n = length ''http://'' + length (takeWhile url_char (drop 7 s))"
    using n by (simp add: url_run_takeWhile)
  ultimately show ?thesis using that by blast
qed

lemma match_at_schemeI:
  assumes "sch = ''https://'' \<or> sch = ''http://''" "url_char x"
  shows "match_at (sch @ x # r) = Some (length sch + length (takeWhile url_char (x # r)))"
  using assms by (auto simp: match_at_def url_run_takeWhile)

lemma match_at_not_url_char: "\<not> url_char d \<Longrightarrow> match_at (d # r) = None"
  using url_char_scheme by (auto simp: match_at_def)

lemma clean_tweet_not_url_char: "\<not> url_char d \<Longrightarrow> clean_tweet (d # r) = d # clean_tweet r"
  by (simp add: match_at_not_url_char)

lemma match_at_rest:
  assumes "match_at s = Some n"
  shows "drop n s = [] \<or> \<not> url_char (hd (drop n s))"
proof -
  from assms obtain sch r where s: "s = sch @ r" 
    and n: "n = length sch + length (takeWhile url_char r)"
    by (rule match_at_SomeD)
  have "drop (length (takeWhile url_char r)) r = dropWhile url_char r"
    by (rule dropWhile_eq_drop [symmetric])
  then have "drop n s = dropWhile url_char r"
    unfolding s n by simp
  then show ?thesis
    by (metis hd_dropWhile)
qed

lemma match_at_all_url_char:
  assumes "match_at s = Some n"
  shows "\<forall>c \<in> set (take n s). url_char c"
proof -
  from assms obtain sch r where s: "s = sch @ r" and sch: "sch = ''https://'' \<or> sch = ''http://''"
    and n: "n = length sch + length (takeWhile url_char r)"
    by (rule match_at_SomeD)
  have "take (length (takeWhile url_char r)) r = takeWhile url_char r"
    by (rule takeWhile_eq_take [symmetric])
  then have "take n s = sch @ takeWhile url_char r"
    unfolding s n by simp
  moreover have "\<forall>c \<in> set sch. url_char c"
    using sch url_char_scheme by auto
  ultimately show ?thesis
    by (auto dest: set_takeWhileD)
qed

lemma clean_tweet_url_head:
  assumes "url_char a" "clean_tweet s = a # out"
  shows "match_at s = None \<and> (\<exists>s'. s = a # s' \<and> clean_tweet s' = out)"
proof (cases s)
  case Nil
  with assms show ?thesis by simp
next
  case (Cons c cs)
  show ?thesis
  proof (cases "match_at s")
    case None
    with Cons assms show ?thesis by simp
  next
    case (Some n)
    then have ct: "clean_tweet s = clean_tweet (drop n s)"
      using Cons by simp
    from match_at_rest[OF Some] have False
    proof
      assume "drop n s = []"
      with ct assms show False by simp
    next
      assume nu: "\<not> url_char (hd (drop n s))"
      show False
      proof (cases "drop n s")
        case Nil
        with ct assms show False by simp
      next
        case (Cons d r)
        with nu have "\<not> url_char d" by simp
        then have "clean_tweet (d # r) = d # clean_tweet r"
          by (rule clean_tweet_not_url_char)
        then have "clean_tweet (drop n s) = d # clean_tweet r"
          by (simp only: Cons)
        with ct assms \<open>\<not> url_char d\<close> show False by simp
      qed
    qed
    then show ?thesis ..
  qed
qed

lemma clean_tweet_url_prefix:
  assumes "\<forall>a \<in> set w. url_char a" "clean_tweet s = w @ out"
  shows "\<exists>s'. s = w @ s' \<and> clean_tweet s' = out"
  using assms
proof (induction w arbitrary: s)
  case Nil
  then show ?case by simp
next
  case (Cons a w)
  then have "url_char a" and "clean_tweet s = a # (w @ out)" by simp_all
  from clean_tweet_url_head[OF this] obtain s1 where s1: "s = a # s1" "clean_tweet s1 = w @ out"
    by blast
  with Cons obtain s' where "s1 = w @ s'" "clean_tweet s' = out"
    by (metis list.set_intros(2))
  with s1 show ?case by simp
qed


lemma match_at_Nil: "match_at [] = None"
  by (simp add: match_at_def)

lemma match_at_kept_head:
  assumes "match_at (c # clean_tweet cs) = Some m"
  shows "match_at (c # cs) \<noteq> None"
proof -
  from assms obtain sch r where eq: "c # clean_tweet cs = sch @ r"
    and sch: "sch = ''https://'' \<or> sch = ''http://''"
    and run: "takeWhile url_char r \<noteq> []"
    by (rule match_at_SomeD)
  from run obtain x r' where r: "r = x # r'" and x: "url_char x"
    by (cases r) (auto split: if_splits)
  from sch obtain sch' where sch': "sch = c # sch'"
    using eq by (cases sch) auto
  have "\<forall>a \<in> set (sch' @ [x]). url_char a"
    using sch sch' x url_char_scheme by auto
  moreover have "clean_tweet cs = (sch' @ [x]) @ r'"
    using eq r sch' by simp
  ultimately obtain s' where "cs = (sch' @ [x]) @ s'"
    using clean_tweet_url_prefix by blast
  then have "c # cs = sch @ x # s'"
    using sch' by simp
  then show ?thesis
    using match_at_schemeI [OF sch x] by simp
qed

lemma clean_tweet_no_match: "match_at (drop i (clean_tweet t)) = None"
proof (induction t arbitrary: i rule: clean_tweet.induct)
  case 1
  show ?case by (simp add: match_at_Nil)
next
  case (2 c cs)
  show ?case
  proof (cases "match_at (c # cs)")
    case (Some n)
    with "2.IH"(2) show ?thesis by simp
  next
    case None
    show ?thesis
    proof (cases i)
      case 0
      have "match_at (c # clean_tweet cs) = None"
        using match_at_kept_head [of c cs] None by (cases "match_at (c # clean_tweet cs)") auto
      with None 0 show ?thesis by simp
    next
      case (Suc j)
      with None "2.IH"(1) show ?thesis by simp
    qed
  qed
qed

lemma clean_tweet_keeps_other:
  "filter (\<lambda>c. \<not> url_char c) (clean_tweet t) = filter (\<lambda>c. \<not> url_char c) t"
proof (induction t rule: clean_tweet.induct)
  case 1
  show ?case by simp
next
  case (2 c cs)
  show ?case
  proof (cases "match_at (c # cs)")
    case None
    with "2.IH"(1) show ?thesis by simp
  next
    case (Some n)
    have "filter (\<lambda>c. \<not> url_char c) (take n (c # cs)) = []"
      using match_at_all_url_char [OF Some] by (simp only: filter_empty_conv) blast
    then have "filter (\<lambda>c. \<not> url_char c) (c # cs) = filter (\<lambda>c. \<not> url_char c) (drop n (c # cs))"
      by (metis append_take_drop_id filter_append self_append_conv2)
    with "2.IH"(2) Some show ?thesis by simp
  qed
qed

lemma url_char_class: "url_char c = in_url_class c"
proof -
  have eq: "c = CHR ''!'' \<longleftrightarrow> (of_char c :: nat) = 0x21"
    "c = CHR ''*'' \<longleftrightarrow> (of_char c :: nat) = 0x2A"
    "c = CHR 0x5C \<longleftrightarrow> (of_char c :: nat) = 0x5C"
    "c = CHR ''('' \<longleftrightarrow> (of_char c :: nat) = 0x28"
    "c = CHR '')'' \<longleftrightarrow> (of_char c :: nat) = 0x29"
    "c = CHR '','' \<longleftrightarrow> (of_char c :: nat) = 0x2C"
    "c = CHR ''@'' \<longleftrightarrow> (of_char c :: nat) = 0x40"
    "c = CHR ''.'' \<longleftrightarrow> (of_char c :: nat) = 0x2E"
    "c = CHR ''&'' \<longleftrightarrow> (of_char c :: nat) = 0x26"
    "c = CHR ''+'' \<longleftrightarrow> (of_char c :: nat) = 0x2B"
    by (cases c; simp; fail)+
  show ?thesis
    unfolding url_char_def alt_letter_def alt_digit_def alt_symbol_def alt_punct_def
      in_range_def in_url_class_def
    by (simp add: eq) arith
qed


lemma url_run_pos: "0 < url_run r \<longleftrightarrow> (case r of [] \<Rightarrow> False | x # _ \<Rightarrow> in_url_class x)"
  by (cases r) (simp_all add: url_run_takeWhile url_char_class)

lemma url_start_match: "url_start s \<longleftrightarrow> match_at s \<noteq> None"
proof -
  have l: "length ''https://'' = 8" "length ''http://'' = 7" by simp_all
  show ?thesis
    unfolding url_start_def scheme_then_class_def l
    by (simp add: match_at_def url_run_pos)
qed

lemma match_at_length: "match_at s = Some n \<Longrightarrow> n \<le> length s"
proof (erule match_at_SomeD)
  fix sch r assume "s = sch @ r" "n = length sch + length (takeWhile url_char r)"
  then show "n \<le> length s"
    using length_takeWhile_le [of url_char r] by simp
qed

lemma nths_cong_length:
  assumes "\<And>i. i < length xs \<Longrightarrow> i \<in> A \<longleftrightarrow> i \<in> B"
  shows "nths xs A = nths xs B"
proof -
  have "filter (\<lambda>p. snd p \<in> A) (zip xs [0..<length xs]) = filter (\<lambda>p. snd p \<in> B) (zip xs [0..<length xs])"
  proof (rule filter_cong [OF refl])
    fix p assume p: "p \<in> set (zip xs [0..<length xs])"
    obtain a b where ab: "p = (a, b)" by (cases p)
    from p have "(a, b) \<in> set (zip xs [0..<length xs])" unfolding ab .
    then have "b \<in> set [0..<length xs]" by (rule set_zip_rightD)
    then have "snd p \<in> set [0..<length xs]" by (simp add: ab)
    then show "(snd p \<in> A) = (snd p \<in> B)"
      using assms by simp
  qed
  then show ?thesis by (simp add: nths_def)
qed

lemma nths_none:
  assumes "\<And>i. i < length xs \<Longrightarrow> i \<notin> A"
  shows "nths xs A = []"
  using nths_cong_length [of xs A "{}"] assms by simp

lemma removed_atI:
  assumes "i < length t" "j \<le> i" "url_start (drop j t)"
    and "\<And>k. j \<le> k \<Longrightarrow> k \<le> i \<Longrightarrow> in_url_class (t ! k)"
  shows "removed_at t i"
  using assms by (auto simp: removed_at_def)

lemma removed_atE:
  assumes "removed_at t i"
  obtains j where "i < length t" "j \<le> i" "url_start (drop j t)"
    "\<forall>k. j \<le> k \<and> k \<le> i \<longrightarrow> in_url_class (t ! k)"
  using assms by (auto simp: removed_at_def)

lemma removed_at_0: "\<not> url_start (c # cs) \<Longrightarrow> \<not> removed_at (c # cs) 0"
  by (simp add: removed_at_def)

lemma removed_at_Suc:
  assumes "\<not> url_start (c # cs)"
  shows "removed_at (c # cs) (Suc i) \<longleftrightarrow> removed_at cs i"
proof
  assume "removed_at (c # cs) (Suc i)"
  then obtain j where i: "Suc i < length (c # cs)" and j: "j \<le> Suc i" "url_start (drop j (c # cs))"
    and "\<forall>k. j \<le> k \<and> k \<le> Suc i \<longrightarrow> in_url_class ((c # cs) ! k)"
    by (rule removed_atE)
  then have k: "\<And>k. j \<le> k \<Longrightarrow> k \<le> Suc i \<Longrightarrow> in_url_class ((c # cs) ! k)"
    by blast
  from j assms obtain j' where j': "j = Suc j'"
    by (cases j) auto
  show "removed_at cs i"
  proof (rule removed_atI [of _ _ j'])
    show "i < length cs" using i by simp
    show "j' \<le> i" using j j' by simp
    show "url_start (drop j' cs)" using j j' by simp
    fix k assume "j' \<le> k" "k \<le> i"
    then have "in_url_class ((c # cs) ! Suc k)" using j' by (intro k) simp_all
    then show "in_url_class (cs ! k)" by simp
  qed
next
  assume "removed_at cs i"
  then obtain j where i: "i < length cs" and j: "j \<le> i" "url_start (drop j cs)"
    and "\<forall>k. j \<le> k \<and> k \<le> i \<longrightarrow> in_url_class (cs ! k)"
    by (rule removed_atE)
  then have k: "\<And>k. j \<le> k \<Longrightarrow> k \<le> i \<Longrightarrow> in_url_class (cs ! k)"
    by blast
  show "removed_at (c # cs) (Suc i)"
  proof (rule removed_atI [of _ _ "Suc j"])
    show "Suc i < length (c # cs)" using i by simp
    show "Suc j \<le> Suc i" using j by simp
    show "url_start (drop (Suc j) (c # cs))" using j by simp
    fix k assume *: "Suc j \<le> k" "k \<le> Suc i"
    then obtain k' where k': "k = Suc k'" by (cases k) auto
    with * have "in_url_class (cs ! k')" by (intro k) simp_all
    then show "in_url_class ((c # cs) ! k)" using k' by simp
  qed
qed

lemma removed_at_in_match:
  assumes "match_at t = Some n" "i < n"
  shows "removed_at t i"
proof (rule removed_atI [of _ _ 0])
  have n: "n \<le> length t" by (rule match_at_length [OF assms(1)])
  show "i < length t" using assms(2) n by simp
  show "0 \<le> i" by simp
  show "url_start (drop 0 t)" using assms(1) by (simp add: url_start_match)
  fix k assume "k \<le> i"
  with assms(2) n have "k < length (take n t)" by simp
  then have "take n t ! k \<in> set (take n t)" by (rule nth_mem)
  moreover have "take n t ! k = t ! k" using \<open>k \<le> i\<close> assms(2) by simp
  ultimately show "in_url_class (t ! k)"
    using match_at_all_url_char [OF assms(1)] by (simp add: url_char_class)
qed

lemma removed_at_behind_match:
  assumes "match_at t = Some n" "i < length (drop n t)"
  shows "removed_at t (i + n) \<longleftrightarrow> removed_at (drop n t) i"
proof
  have n: "n \<le> length t" by (rule match_at_length [OF assms(1)])
  have stop: "\<not> in_url_class (t ! n)"
  proof -
    from assms(2) have ne: "drop n t \<noteq> []" by auto
    with match_at_rest [OF assms(1)] have "\<not> url_char (hd (drop n t))" by simp
    moreover have "hd (drop n t) = t ! n"
      using ne by (simp add: hd_drop_conv_nth)
    ultimately show ?thesis by (simp add: url_char_class)
  qed
  assume "removed_at t (i + n)"
  then obtain j where j: "j \<le> i + n" "url_start (drop j t)"
    and "\<forall>k. j \<le> k \<and> k \<le> i + n \<longrightarrow> in_url_class (t ! k)"
    by (rule removed_atE)
  then have k: "\<And>k. j \<le> k \<Longrightarrow> k \<le> i + n \<Longrightarrow> in_url_class (t ! k)"
    by blast
  have nj: "n \<le> j"
  proof (rule ccontr)
    assume "\<not> n \<le> j"
    then have "in_url_class (t ! n)" by (intro k) simp_all
    with stop show False by simp
  qed
  show "removed_at (drop n t) i"
  proof (rule removed_atI [of _ _ "j - n"])
    show "i < length (drop n t)" by (rule assms(2))
    show "j - n \<le> i" using j nj by simp
    show "url_start (drop (j - n) (drop n t))" using j nj by simp
    fix k assume "j - n \<le> k" "k \<le> i"
    then have "in_url_class (t ! (n + k))" using nj by (intro k) simp_all
    then show "in_url_class (drop n t ! k)" using n by simp
  qed
next
  have n: "n \<le> length t" by (rule match_at_length [OF assms(1)])
  assume "removed_at (drop n t) i"
  then obtain j where j: "j \<le> i" "url_start (drop j (drop n t))"
    and "\<forall>k. j \<le> k \<and> k \<le> i \<longrightarrow> in_url_class (drop n t ! k)"
    by (rule removed_atE)
  then have k: "\<And>k. j \<le> k \<Longrightarrow> k \<le> i \<Longrightarrow> in_url_class (drop n t ! k)"
    by blast
  show "removed_at t (i + n)"
  proof (rule removed_atI [of _ _ "j + n"])
    show "i + n < length t" using assms(2) by simp
    show "j + n \<le> i + n" using j by simp
    show "url_start (drop (j + n) t)" using j by simp
    fix k assume *: "j + n \<le> k" "k \<le> i + n"
    then have "in_url_class (drop n t ! (k - n))" by (intro k) simp_all
    moreover have "n + (k - n) = k" using * by simp
    ultimately show "in_url_class (t ! k)" using n by simp
  qed
qed

lemma clean_tweet_by_position: "clean_tweet t = nths t {i. \<not> removed_at t i}"
proof (induction t rule: clean_tweet.induct)
  case 1
  show ?case by simp
next
  case (2 c cs)
  show ?case
  proof (cases "match_at (c # cs)")
    case None
    then have ns: "\<not> url_start (c # cs)" by (simp add: url_start_match)
    have "nths (c # cs) {i. \<not> removed_at (c # cs) i} = c # nths cs {i. \<not> removed_at cs i}"
      using removed_at_0 [OF ns] removed_at_Suc [OF ns] by (simp add: nths_Cons)
    with "2.IH"(1) None show ?thesis by simp
  next
    case (Some n)
    let ?t = "c # cs"
    let ?A = "{i. \<not> removed_at ?t i}"
    have n: "n \<le> length ?t" by (rule match_at_length [OF Some])
    have "nths (take n ?t @ drop n ?t) ?A
        = nths (take n ?t) ?A @ nths (drop n ?t) {j. j + length (take n ?t) \<in> ?A}"
      by (rule nths_append)
    moreover have "nths (take n ?t) ?A = []"
    proof (rule nths_none)
      fix i assume "i < length (take n ?t)"
      then have "i < n" by simp
      from removed_at_in_match [OF Some this] show "i \<notin> ?A" by simp
    qed
    moreover have "nths (drop n ?t) {j. j + length (take n ?t) \<in> ?A}
        = nths (drop n ?t) {i. \<not> removed_at (drop n ?t) i}"
    proof (rule nths_cong_length)
      fix i assume "i < length (drop n ?t)"
      from removed_at_behind_match [OF Some this] n
      show "i \<in> {j. j + length (take n ?t) \<in> ?A} \<longleftrightarrow> i \<in> {i. \<not> removed_at (drop n ?t) i}"
        by (simp add: min_absorb2)
    qed
    ultimately have "nths ?t ?A = nths (drop n ?t) {i. \<not> removed_at (drop n ?t) i}"
      by (simp only: append_take_drop_id append_Nil)
    with "2.IH"(2) Some show ?thesis by simp
  qed
qed

lemma clean_tweet_no_url_start: "\<not> url_start (drop i (clean_tweet t))"
  by (simp add: url_start_match clean_tweet_no_match)

lemma clean_tweet_nothing_to_remove:
  assumes "\<forall>i < length t. \<not> url_start (drop i t)"
  shows "clean_tweet t = t"
proof -
  have "nths t {i. \<not> removed_at t i} = t"
  proof (rule nths_all, intro allI impI)
    fix i assume "i < length t"
    with assms show "i \<in> {i. \<not> removed_at t i}"
      by (auto simp: removed_at_def)
  qed
  then show ?thesis by (simp add: clean_tweet_by_position)
qed

lemma clean_tweet_keeps_outside_class:
  "filter (\<lambda>c. \<not> in_url_class c) (clean_tweet t) = filter (\<lambda>c. \<not> in_url_class c) t"
  using clean_tweet_keeps_other [of t] by (simp add: url_char_class)

lemma url_start_h: "url_start s \<Longrightarrow> CHR ''h'' \<in> set s"
proof -
  assume "url_start s"
  then obtain n where "match_at s = Some n"
    by (auto simp: url_start_match)
  then obtain sch r where "s = sch @ r" "sch = ''https://'' \<or> sch = ''http://''"
    by (rule match_at_SomeD)
  then show ?thesis by auto
qed

lemma no_h_no_url_start: "CHR ''h'' \<notin> set t \<Longrightarrow> \<not> url_start (drop i t)"
  by (auto dest!: url_start_h in_set_dropD)

text \<open>
  Claim C5, as the code has it. \<open>clean_tweet\<close> removes the matches of its pattern, which
  are not the URL-shaped substrings of every text. A character is removed exactly when
  it lies in a run of characters of the pattern's class that begins, at or before it,
  with \<open>http://\<close> or \<open>https://\<close> in small letters followed by a character of the class;
  every other character is kept, in order. So punctuation and letters of the class that
  stand directly behind a URL go with it, a URL is cut at \<open>#\<close>, \<open>~\<close> or a character beyond
  ASCII, and a scheme in capital letters is not matched. In the output no URL of the
  pattern starts anywhere; the characters outside the class (blanks, quotes, \<open>#\<close>, \<open>~\<close>,
  the bytes of an emoji) are all kept; and a text in which no URL of the pattern starts
  is returned as it is.
\<close>

theorem clean_tweet_removes_pattern_matches:
  "clean_tweet t = nths t {i. \<not> removed_at t i}
   \<and> (\<forall>i. \<not> url_start (drop i (clean_tweet t)))
   \<and> filter (\<lambda>c. \<not> in_url_class c) (clean_tweet t) = filter (\<lambda>c. \<not> in_url_class c) t
   \<and> ((\<forall>i \<in> {..<length t}. \<not> url_start (drop i t)) \<longrightarrow> clean_tweet t = t)"
proof (intro conjI allI impI)
  show "clean_tweet t = nths t {i. \<not> removed_at t i}"
    by (rule clean_tweet_by_position)
  show "\<not> url_start (drop i (clean_tweet t))" for i
    by (rule clean_tweet_no_url_start)
  show "filter (\<lambda>c. \<not> in_url_class c) (clean_tweet t) = filter (\<lambda>c. \<not> in_url_class c) t"
    by (rule clean_tweet_keeps_outside_class)
  assume "\<forall>i \<in> {..<length t}. \<not> url_start (drop i t)"
  then have "\<forall>i < length t. \<not> url_start (drop i t)" by simp
  then show "clean_tweet t = t" by (rule clean_tweet_nothing_to_remove)
qed

theorem clean_tweet_removes_pattern_matches_witness:
  "clean_tweet ''see https://example.com/x now'' = ''see  now''
   \<and> filter (\<lambda>c. \<not> in_url_class c) ''see  now''
       = filter (\<lambda>c. \<not> in_url_class c) ''see https://example.com/x now''
   \<and> clean_tweet ''link (https://a.b/c,d), ok!'' = ''link ( ok!''
   \<and> clean_tweet ''Visit https://example.com. Then go'' = ''Visit  Then go''
   \<and> clean_tweet (''wow! '' @ [CHR 0xF0, CHR 0x9F, CHR 0x98, CHR 0x80])
       = ''wow! '' @ [CHR 0xF0, CHR 0x9F, CHR 0x98, CHR 0x80]"
proof -
  have c: "clean_tweet ''see https://example.com/x now'' = ''see  now''"
    by code_simp
  have p: "clean_tweet ''link (https://a.b/c,d), ok!'' = ''link ( ok!''
      \<and> clean_tweet ''Visit https://example.com. Then go'' = ''Visit  Then go''"
    by code_simp
  have e: "\<forall>i \<in> {..<length (''wow! '' @ [CHR 0xF0, CHR 0x9F, CHR 0x98, CHR 0x80])}.
         \<not> url_start (drop i (''wow! '' @ [CHR 0xF0, CHR 0x9F, CHR 0x98, CHR 0x80]))"
    by (intro ballI no_h_no_url_start) simp
  have "filter (\<lambda>c. \<not> in_url_class c) (clean_tweet ''see https://example.com/x now'')
       = filter (\<lambda>c. \<not> in_url_class c) ''see https://example.com/x now''"
    by (rule clean_tweet_removes_pattern_matches [of "''see https://example.com/x now''",
          THEN conjunct2, THEN conjunct2, THEN conjunct1])
  then have "filter (\<lambda>c. \<not> in_url_class c) ''see  now''
       = filter (\<lambda>c. \<not> in_url_class c) ''see https://example.com/x now''"
    by (simp only: c)
  moreover have "clean_tweet (''wow! '' @ [CHR 0xF0, CHR 0x9F, CHR 0x98, CHR 0x80])
       = ''wow! '' @ [CHR 0xF0, CHR 0x9F, CHR 0x98, CHR 0x80]"
    using clean_tweet_removes_pattern_matches [of "''wow! '' @ [CHR 0xF0, CHR 0x9F, CHR 0x98, CHR 0x80]"] e
    by blast
  ultimately show ?thesis
    using c p by blast
qed

text \<open>
  The claim as the specification words it fails on texts with ordinary URLs. The URL
  with a fragment is removed only up to the \<open>#\<close>; of the URL in angle brackets the closing
  bracket, which is no character of a URL, is removed as well; the URL with its scheme in
  capital letters stays in the output.
\<close>

theorem clean_tweet_url_shaped_counterexample:
  "spec_url_shaped ''https://en.wikipedia.org/wiki/URL#Syntax''
   \<and> \<not> spec_url_char CHR '' ''
   \<and> clean_tweet (''doc '' @ ''https://en.wikipedia.org/wiki/URL#Syntax'' @ '' here'')
       = ''doc #Syntax here''
   \<and> clean_tweet (''doc '' @ ''https://en.wikipedia.org/wiki/URL#Syntax'' @ '' here'')
       \<noteq> ''doc '' @ '' here''
   \<and> spec_url_shaped ''https://example.com''
   \<and> \<not> spec_url_char CHR ''<'' \<and> \<not> spec_url_char CHR ''>''
   \<and> clean_tweet (''<'' @ ''https://example.com'' @ ''> ok'') = ''< ok''
   \<and> clean_tweet (''<'' @ ''https://example.com'' @ ''> ok'') \<noteq> ''<'' @ ''> ok''
   \<and> spec_url_shaped ''HTTPS://EXAMPLE.COM''
   \<and> clean_tweet (''HTTPS://EXAMPLE.COM'' @ '' up'') = ''HTTPS://EXAMPLE.COM'' @ '' up''"
  by code_simp

section \<open>Properties of the chat operation\<close>

text \<open>The equations that run the chat operation on the services defined above.\<close>

lemmas demo_defs = services_up_def completion_down_def index_down_def embedding_down_def
  demo_hits_def chat_history0_def chatbot_def vector_search_def get_embedding_def Let_def

lemma get_embedding_cases:
  "get_embedding env t =
     (case embeddings_create env t of
        Inr v \<Rightarrow> (Some v, [EmbeddingsCreate t])
      | Inl e \<Rightarrow> (None, [EmbeddingsCreate t, Print (''Error in get_embedding: '' @ str_of_exception e)]))"
  by (simp add: get_embedding_def)

lemma vector_search_no_completion: "ChatCompletionsCreate m \<notin> set (snd (vector_search env q))"
  by (auto simp: vector_search_def get_embedding_def split: sum.splits)

lemma chatbot_raised_in_search:
  assumes "vector_search env p = (Inl e, tr)"
  shows "chatbot env p h = (Inl e, h @ [user_turn p], tr)"
  using assms by (simp add: chatbot_def Let_def)

lemma chatbot_raised_in_completion:
  assumes "vector_search env p = (Inr tweets, tr)"
    and "chat_completions_create env (h @ [user_turn p, context_turn env tweets]) = Inl e"
  shows "chatbot env p h =
    (Inl e, h @ [user_turn p, context_turn env tweets],
     tr @ [ChatCompletionsCreate (h @ [user_turn p, context_turn env tweets])])"
  using assms by (simp add: chatbot_def Let_def)

lemma chatbot_replied:
  assumes "vector_search env p = (Inr tweets, tr)"
    and "chat_completions_create env (h @ [user_turn p, context_turn env tweets]) = Inr reply"
  shows "chatbot env p h =
    (Inr reply, h @ [user_turn p, context_turn env tweets, assistant_turn reply],
     tr @ [ChatCompletionsCreate (h @ [user_turn p, context_turn env tweets])])"
  using assms by (simp add: chatbot_def Let_def)

lemma chatbot_outcomes:
  obtains (search) e tr where "vector_search env p = (Inl e, tr)"
      "chatbot env p h = (Inl e, h @ [user_turn p], tr)"
  | (completion) tweets tr e where "vector_search env p = (Inr tweets, tr)"
      "chat_completions_create env (h @ [user_turn p, context_turn env tweets]) = Inl e"
      "chatbot env p h = (Inl e, h @ [user_turn p, context_turn env tweets],
         tr @ [ChatCompletionsCreate (h @ [user_turn p, context_turn env tweets])])"
  | (reply) tweets tr reply where "vector_search env p = (Inr tweets, tr)"
      "chat_completions_create env (h @ [user_turn p, context_turn env tweets]) = Inr reply"
      "chatbot env p h = (Inr reply, h @ [user_turn p, context_turn env tweets, assistant_turn reply],
         tr @ [ChatCompletionsCreate (h @ [user_turn p, context_turn env tweets])])"
proof (cases "vector_search env p")
  case (Pair r tr)
  show ?thesis
  proof (cases r)
    case (Inl e)
    with Pair search chatbot_raised_in_search show ?thesis by blast
  next
    case (Inr tweets)
    show ?thesis
    proof (cases "chat_completions_create env (h @ [user_turn p, context_turn env tweets])")
      case (Inl e)
      with Pair Inr completion chatbot_raised_in_completion show ?thesis by blast
    next
      case r: (Inr reply)
      with Pair Inr reply chatbot_replied show ?thesis by blast
    qed
  qed
qed

lemma chatbot_success_history:
  assumes "chatbot env p h = (Inr reply, h', tr)"
  shows "\<exists>tweets. h' = h @ [user_turn p, context_turn env tweets, assistant_turn reply]"
  by (rule chatbot_outcomes [of env p h]) (use assms in auto)

lemma chatbot_completion_failure_history:
  assumes "chatbot env p h = (Inl e, h', tr)" "ChatCompletionsCreate m \<in> set tr"
  shows "\<exists>tweets. h' = h @ [user_turn p, context_turn env tweets]"
proof (rule chatbot_outcomes [of env p h])
  fix e' tr' assume vs: "vector_search env p = (Inl e', tr')"
    and "chatbot env p h = (Inl e', h @ [user_turn p], tr')"
  with assms have "ChatCompletionsCreate m \<in> set (snd (vector_search env p))" by simp
  then show ?thesis by (simp add: vector_search_no_completion)
qed (use assms in auto)

lemma roles [simp]:
  "role (user_turn p) = ''user''" "role (context_turn env tweets) = ''system''"
  "role (assistant_turn r) = ''assistant''" "role system_instruction = ''system''"
  by (simp_all add: user_turn_def context_turn_def assistant_turn_def system_instruction_def)

lemma chat_calls_all_replied:
  assumes "\<forall>r \<in> set (fst (chat_calls calls h)). \<not> isl r"
  shows "map role (snd (chat_calls calls h))
       = map role h @ concat (replicate (length calls) [''user'', ''system'', ''assistant''])"
  using assms
proof (induction calls arbitrary: h)
  case Nil
  show ?case by simp
next
  case (Cons c calls)
  obtain env p where c: "c = (env, p)" by (cases c)
  obtain r h' tr where cb: "chatbot env p h = (r, h', tr)" by (cases "chatbot env p h")
  obtain rs h'' where rest: "chat_calls calls h' = (rs, h'')" by (cases "chat_calls calls h'")
  from Cons.prems c cb rest have r: "\<not> isl r" and rs: "\<forall>r \<in> set (fst (chat_calls calls h')). \<not> isl r"
    by simp_all
  from r obtain reply where "r = Inr reply" by (cases r) auto
  with cb obtain tweets where h': "h' = h @ [user_turn p, context_turn env tweets, assistant_turn reply]"
    using chatbot_success_history by blast
  from Cons.IH [OF rs] have "map role h'' = map role h' @ concat (replicate (length calls) [''user'', ''system'', ''assistant''])"
    using rest by simp
  then show ?case
    using c cb rest h' by simp
qed

text \<open>
  Claim C1. From the initial history, after \<open>N\<close> calls of \<open>chatbot\<close> that all returned
  a reply the history holds exactly \<open>1 + 3N\<close> turns: the instruction turn, then per call
  a user turn, a retrieved-context turn (role \<open>system\<close>) and an assistant turn. If the
  next call reaches the completion API and that call raises, the history holds
  \<open>1 + 3N + 2\<close> turns: the user turn and the retrieved-context turn were appended, no
  assistant turn.
\<close>

theorem chat_history_turn_count:
  assumes "\<forall>r \<in> set (fst (chat_calls calls chat_history0)). \<not> isl r"
  shows "length (snd (chat_calls calls chat_history0)) = 1 + 3 * length calls
    \<and> map role (snd (chat_calls calls chat_history0))
        = ''system'' # concat (replicate (length calls) [''user'', ''system'', ''assistant''])
    \<and> (\<forall>env prompt e h' tr m.
          chatbot env prompt (snd (chat_calls calls chat_history0)) = (Inl e, h', tr)
          \<and> ChatCompletionsCreate m \<in> set tr
          \<longrightarrow> length h' = 1 + 3 * length calls + 2
              \<and> map role h' = map role (snd (chat_calls calls chat_history0)) @ [''user'', ''system''])"
proof -
  let ?h = "snd (chat_calls calls chat_history0)"
  have roles: "map role ?h = ''system'' # concat (replicate (length calls) [''user'', ''system'', ''assistant''])"
    using chat_calls_all_replied [OF assms] by (simp add: chat_history0_def)
  have "length (map role ?h) = 1 + 3 * length calls"
    unfolding roles by (simp add: length_concat sum_list_replicate)
  then have len: "length ?h = 1 + 3 * length calls" by simp
  have "length h' = 1 + 3 * length calls + 2 \<and> map role h' = map role ?h @ [''user'', ''system'']"
    if "chatbot env prompt ?h = (Inl e, h', tr)" "ChatCompletionsCreate m \<in> set tr"
    for env prompt e h' tr m
  proof -
    from chatbot_completion_failure_history [OF that]
    obtain tweets where "h' = ?h @ [user_turn prompt, context_turn env tweets]" by blast
    then show ?thesis using len by simp
  qed
  with roles len show ?thesis by blast
qed

theorem chat_history_turn_count_witness:
  "length (snd (chat_calls [(services_up, ''a''), (services_up, ''b'')] chat_history0)) = 7
   \<and> length (fst (snd (chatbot completion_down ''c''
        (snd (chat_calls [(services_up, ''a''), (services_up, ''b'')] chat_history0))))) = 9"
proof -
  let ?calls = "[(services_up, ''a''), (services_up, ''b'')]"
  have ok: "\<forall>r \<in> set (fst (chat_calls ?calls chat_history0)). \<not> isl r"
    by (simp add: demo_defs)
  let ?h = "snd (chat_calls ?calls chat_history0)"
  let ?out = "chatbot completion_down ''c'' ?h"
  have cb: "?out = (Inl (PyException ''rate limit''), fst (snd ?out), snd (snd ?out))"
    by (simp add: demo_defs)
  have "\<exists>m. ChatCompletionsCreate m \<in> set (snd (snd ?out))"
    by (simp add: demo_defs)
  then obtain m where "ChatCompletionsCreate m \<in> set (snd (snd ?out))" ..
  with chat_history_turn_count [OF ok] cb
  have "length ?h = 1 + 3 * length ?calls"
    and "length (fst (snd ?out)) = 1 + 3 * length ?calls + 2"
    by blast+
  then show ?thesis by simp
qed

section \<open>Failure of the vector index and of the embedding provider\<close>

text \<open>
  Claim C2, as the code has it. When the similarity search raises, \<open>chatbot\<close> does not
  return a reply: the exception leaves \<open>chatbot\<close>, only the user turn has been appended,
  no retrieved-context turn is appended and the completion API is not called. The
  degraded mode exists for a failure of the embedding provider alone: then the
  retrieved-context turn carries the note \<open>Invalid query or embedding generation failed.\<close>,
  the completion API is called with the history so extended, and its outcome is the
  outcome of \<open>chatbot\<close>, the reply being appended as the assistant turn.
\<close>

theorem chatbot_index_failure_propagates:
  "(embeddings_create env prompt = Inr v \<and> aggregate env (vector_pipeline v) = Inl e
      \<longrightarrow> chatbot env prompt h
          = (Inl e, h @ [user_turn prompt], [EmbeddingsCreate prompt, Aggregate (vector_pipeline v)]))
   \<and> (embeddings_create env prompt = Inl e'
      \<longrightarrow> fst (snd (chatbot env prompt h))
            = h @ [user_turn prompt,
                   \<lparr>role = ''system'',
                    content = ''here the returned tweets delimitered by ###Invalid query or embedding generation failed.###''\<rparr>]
              @ (case fst (chatbot env prompt h) of Inl _ \<Rightarrow> [] | Inr reply \<Rightarrow> [assistant_turn reply])
          \<and> fst (chatbot env prompt h)
            = chat_completions_create env
                (h @ [user_turn prompt,
                      \<lparr>role = ''system'',
                       content = ''here the returned tweets delimitered by ###Invalid query or embedding generation failed.###''\<rparr>]))"
  by (auto simp: chatbot_def vector_search_def get_embedding_def context_turn_def format_tweets_def
      delimiter_def Let_def split: sum.splits)

theorem chatbot_index_failure_counterexample:
  "chatbot index_down ''What threats are trending?'' chat_history0
     = (Inl (PyException ''index unavailable''),
        [system_instruction, user_turn ''What threats are trending?''],
        [EmbeddingsCreate ''What threats are trending?'', Aggregate (vector_pipeline [1 / 2, 1 / 4])])"
  by (simp add: demo_defs)

theorem chatbot_index_failure_propagates_witness:
  "chatbot index_down ''hi'' chat_history0
     = (Inl (PyException ''index unavailable''), chat_history0 @ [user_turn ''hi''],
        [EmbeddingsCreate ''hi'', Aggregate (vector_pipeline [1 / 2, 1 / 4])])
   \<and> fst (chatbot embedding_down ''hi'' chat_history0) = Inr ''ok''
   \<and> fst (snd (chatbot embedding_down ''hi'' chat_history0))
       = chat_history0 @ [user_turn ''hi'',
           \<lparr>role = ''system'',
            content = ''here the returned tweets delimitered by ###Invalid query or embedding generation failed.###''\<rparr>,
           assistant_turn ''ok'']"
proof -
  have 1: "embeddings_create index_down ''hi'' = Inr [1 / 2, 1 / 4]
      \<and> aggregate index_down (vector_pipeline [1 / 2, 1 / 4]) = Inl (PyException ''index unavailable'')"
    by (simp add: index_down_def services_up_def)
  have 2: "embeddings_create embedding_down ''hi'' = Inl (PyException ''network error'')"
    by (simp add: embedding_down_def services_up_def)
  have 3: "chat_completions_create embedding_down ms = Inr ''ok''" for ms
    by (simp add: embedding_down_def services_up_def)
  show ?thesis
    using chatbot_index_failure_propagates [where env = index_down and prompt = "''hi''"
        and v = "[1 / 2, 1 / 4]" and e = "PyException ''index unavailable''" and h = chat_history0] 1
      chatbot_index_failure_propagates [where env = embedding_down and prompt = "''hi''"
        and e' = "PyException ''network error''" and h = chat_history0] 2
    by (simp add: 3)
qed

text \<open>
  Claim C3, as the code has it. When the embedding provider fails on the query,
  \<open>get_embedding\<close> catches the exception, prints it and returns \<open>None\<close>; \<open>vector_search\<close>
  then returns at once, without querying the index and without raising: its value is the
  string \<open>Invalid query or embedding generation failed.\<close>, not an error and not an empty
  result list.
\<close>

theorem vector_search_embedding_failure:
  assumes "embeddings_create env query = Inl e"
  shows "get_embedding env query
           = (None, [EmbeddingsCreate query, Print (''Error in get_embedding: '' @ str_of_exception e)])
    \<and> vector_search env query
           = (Inr (Message ''Invalid query or embedding generation failed.''),
              [EmbeddingsCreate query, Print (''Error in get_embedding: '' @ str_of_exception e)])"
  using assms by (simp add: vector_search_def get_embedding_def)

theorem vector_search_embedding_failure_witness:
  "embeddings_create embedding_down ''combats'' = Inl (PyException ''network error'')
   \<and> vector_search embedding_down ''combats''
       = (Inr (Message ''Invalid query or embedding generation failed.''),
          [EmbeddingsCreate ''combats'', Print ''Error in get_embedding: network error''])"
proof -
  have f: "embeddings_create embedding_down ''combats'' = Inl (PyException ''network error'')"
    by (simp add: embedding_down_def services_up_def)
  from vector_search_embedding_failure [OF f] f show ?thesis
    by (simp add: str_of_exception_def)
qed

theorem vector_search_embedding_failure_counterexample:
  "fst (vector_search embedding_down ''combats'')
     = Inr (Message ''Invalid query or embedding generation failed.'')
   \<and> fst (vector_search embedding_down ''combats'') \<noteq> Inl (PyException ''network error'')
   \<and> fst (vector_search embedding_down ''combats'') \<noteq> Inr (Hits [])"
  by (simp add: demo_defs)

text \<open>
  Claim C4, as the code has it. \<open>vector_search\<close> takes the query alone: the number of
  results asked for is the constant 10, of 1000 candidates, whatever the caller wants.
  Its result list is the list the index returned, neither cut nor reordered; so it has
  at most 10 results when the index honours the limit of the pipeline, and it is in
  descending order of score when the index answers in that order.
\<close>

theorem vector_search_limit:
  assumes "vector_search env query = (Inr (Hits results), tr)"
  shows "(\<exists>v. embeddings_create env query = Inr v
            \<and> aggregate env (vector_pipeline v) = Inr results
            \<and> tr = [EmbeddingsCreate query, Aggregate (vector_pipeline v)]
            \<and> vs_limit (vector_pipeline v) = 10 \<and> vs_numCandidates (vector_pipeline v) = 1000)
    \<and> ((\<forall>p hs. aggregate env p = Inr hs \<longrightarrow> length hs \<le> vs_limit p) \<longrightarrow> length results \<le> 10)
    \<and> ((\<forall>p hs. aggregate env p = Inr hs \<longrightarrow> sorted_wrt (\<lambda>a b. score b \<le> (score a :: real)) hs)
          \<longrightarrow> sorted_wrt (\<lambda>a b. score b \<le> score a) results)"
proof -
  from assms obtain v where v: "embeddings_create env query = Inr v"
    "aggregate env (vector_pipeline v) = Inr results"
    "tr = [EmbeddingsCreate query, Aggregate (vector_pipeline v)]"
    by (auto simp: vector_search_def get_embedding_def split: sum.splits)
  have "vs_limit (vector_pipeline v) = 10 \<and> vs_numCandidates (vector_pipeline v) = 1000"
    by (simp add: vector_pipeline_def)
  moreover have "length results \<le> 10" if "\<forall>p hs. aggregate env p = Inr hs \<longrightarrow> length hs \<le> vs_limit p"
    using that v(2) by (fastforce simp: vector_pipeline_def)
  ultimately show ?thesis using v by blast
qed

theorem vector_search_limit_witness:
  "vector_search services_up ''combats''
     = (Inr (Hits demo_hits), [EmbeddingsCreate ''combats'', Aggregate (vector_pipeline [1 / 2, 1 / 4])])
   \<and> length demo_hits \<le> 10
   \<and> sorted_wrt (\<lambda>a b. real (length (hit_tweet_text b)) \<le> real (length (hit_tweet_text a))) demo_hits"
proof -
  have run: "vector_search services_up ''combats''
     = (Inr (Hits demo_hits), [EmbeddingsCreate ''combats'', Aggregate (vector_pipeline [1 / 2, 1 / 4])])"
    by (simp add: demo_defs vector_pipeline_def)
  have lim: "\<forall>p hs. aggregate services_up p = Inr hs \<longrightarrow> length hs \<le> vs_limit p"
    by (auto simp: services_up_def)
  have ord: "\<forall>p hs. aggregate services_up p = Inr hs
      \<longrightarrow> sorted_wrt (\<lambda>a b. real (length (hit_tweet_text b)) \<le> real (length (hit_tweet_text a))) hs"
    by (auto simp: services_up_def demo_hits_def)
  from vector_search_limit [OF run, of "\<lambda>h. real (length (hit_tweet_text h))"] lim ord run
  show ?thesis by blast
qed

theorem vector_search_top_k_counterexample:
  "fst (vector_search services_up ''combats'') = Inr (Hits demo_hits)
   \<and> \<not> length demo_hits \<le> (2::nat) \<and> demo_hits \<noteq> []"
  by (simp add: demo_defs vector_pipeline_def)

section \<open>The order of the turns\<close>

lemma kinds [simp]:
  "kind (user_turn p) = UserInput" "kind (context_turn env tweets) = RetrievedContext"
  "kind (assistant_turn r) = AssistantReply" "kind system_instruction = SystemInstruction"
  by (simp_all add: kind_def user_turn_def context_turn_def assistant_turn_def system_instruction_def)

lemma chatbot_appends:
  obtains ext where "fst (snd (chatbot env p h)) = h @ ext"
    "map kind ext = [UserInput] \<or> map kind ext = [UserInput, RetrievedContext]
     \<or> map kind ext = [UserInput, RetrievedContext, AssistantReply]"
    "\<not> isl (fst (chatbot env p h)) \<longrightarrow> map kind ext = [UserInput, RetrievedContext, AssistantReply]"
proof (rule chatbot_outcomes [of env p h])
  fix e tr assume "chatbot env p h = (Inl e, h @ [user_turn p], tr)"
  then show ?thesis using that [of "[user_turn p]"] by simp
next
  fix tweets tr e
  assume "chatbot env p h = (Inl e, h @ [user_turn p, context_turn env tweets],
         tr @ [ChatCompletionsCreate (h @ [user_turn p, context_turn env tweets])])"
  then show ?thesis using that [of "[user_turn p, context_turn env tweets]"] by simp
next
  fix tweets tr reply
  assume "chatbot env p h = (Inr reply, h @ [user_turn p, context_turn env tweets, assistant_turn reply],
         tr @ [ChatCompletionsCreate (h @ [user_turn p, context_turn env tweets])])"
  then show ?thesis using that [of "[user_turn p, context_turn env tweets, assistant_turn reply]"] by simp
qed

lemma chat_calls_Cons:
  "chat_calls ((env, p) # calls) h =
     (fst (chatbot env p h) # fst (chat_calls calls (fst (snd (chatbot env p h)))),
      snd (chat_calls calls (fst (snd (chatbot env p h)))))"
  by (simp split: prod.splits)

lemma chat_calls_append:
  "snd (chat_calls (calls1 @ calls2) h) = snd (chat_calls calls2 (snd (chat_calls calls1 h)))"
proof (induction calls1 arbitrary: h)
  case Nil
  show ?case by simp
next
  case (Cons c calls1)
  obtain env p where "c = (env, p)" by (cases c)
  with Cons show ?case by (simp only: append_Cons chat_calls_Cons snd_conv)
qed

lemma chat_calls_prefix: "prefix h (snd (chat_calls calls h))"
proof (induction calls arbitrary: h)
  case Nil
  show ?case by simp
next
  case (Cons c calls)
  obtain env p where c: "c = (env, p)" by (cases c)
  obtain ext where "fst (snd (chatbot env p h)) = h @ ext" by (rule chatbot_appends)
  moreover have "prefix (fst (snd (chatbot env p h))) (snd (chat_calls calls (fst (snd (chatbot env p h)))))"
    by (rule Cons.IH)
  ultimately show ?case
    unfolding c chat_calls_Cons snd_conv by (metis append_prefixD)
qed

lemma appended_in_order_block:
  assumes "appended_in_order prev ks"
    and "ks' = [UserInput] \<or> ks' = [UserInput, RetrievedContext]
     \<or> ks' = [UserInput, RetrievedContext, AssistantReply]"
  shows "appended_in_order prev (ks @ ks')"
  using assms by (induction ks arbitrary: prev) auto

lemma chat_calls_in_order:
  assumes "h = system_instruction # ts" "appended_in_order SystemInstruction (map kind ts)"
  shows "\<exists>ts'. snd (chat_calls calls h) = system_instruction # ts'
     \<and> appended_in_order SystemInstruction (map kind ts')"
  using assms
proof (induction calls arbitrary: h ts)
  case Nil
  then show ?case by simp
next
  case (Cons c calls)
  obtain env p where c: "c = (env, p)" by (cases c)
  obtain ext where ext: "fst (snd (chatbot env p h)) = h @ ext"
    "map kind ext = [UserInput] \<or> map kind ext = [UserInput, RetrievedContext]
     \<or> map kind ext = [UserInput, RetrievedContext, AssistantReply]"
    by (rule chatbot_appends)
  have "fst (snd (chatbot env p h)) = system_instruction # (ts @ ext)"
    using ext(1) Cons.prems(1) by simp
  moreover have "appended_in_order SystemInstruction (map kind (ts @ ext))"
    using appended_in_order_block [OF Cons.prems(2) ext(2)] by simp
  ultimately have "\<exists>ts'. snd (chat_calls calls (fst (snd (chatbot env p h)))) = system_instruction # ts'
     \<and> appended_in_order SystemInstruction (map kind ts')"
    by (rule Cons.IH)
  then show ?case
    unfolding c chat_calls_Cons snd_conv .
qed

lemma chat_calls_kinds_replied:
  assumes "\<forall>r \<in> set (fst (chat_calls calls h)). \<not> isl r"
  shows "map kind (snd (chat_calls calls h))
       = map kind h @ concat (replicate (length calls) [UserInput, RetrievedContext, AssistantReply])"
  using assms
proof (induction calls arbitrary: h)
  case Nil
  show ?case by simp
next
  case (Cons c calls)
  obtain env p where c: "c = (env, p)" by (cases c)
  from Cons.prems have r: "\<not> isl (fst (chatbot env p h))"
    and rs: "\<forall>r \<in> set (fst (chat_calls calls (fst (snd (chatbot env p h))))). \<not> isl r"
    unfolding c chat_calls_Cons by simp_all
  obtain ext where ext: "fst (snd (chatbot env p h)) = h @ ext"
    "\<not> isl (fst (chatbot env p h)) \<longrightarrow> map kind ext = [UserInput, RetrievedContext, AssistantReply]"
    by (rule chatbot_appends)
  from Cons.IH [OF rs] ext r show ?case
    unfolding c chat_calls_Cons snd_conv by simp
qed

lemma triples_no_instruction:
  "SystemInstruction \<notin> set (concat (replicate n [UserInput, RetrievedContext, AssistantReply]))"
  by (induction n) auto

lemma triples_alternate:
  "alternate (filter (\<lambda>k. k = UserInput \<or> k = AssistantReply)
     (concat (replicate n [UserInput, RetrievedContext, AssistantReply])))"
  by (induction n) auto

lemma triples_context_between:
  "context_between prev (concat (replicate n [UserInput, RetrievedContext, AssistantReply]))"
proof (induction n arbitrary: prev)
  case 0
  show ?case by simp
next
  case (Suc n)
  have "context_between AssistantReply (concat (replicate n [UserInput, RetrievedContext, AssistantReply]))"
    by (rule Suc.IH)
  then show ?case
    by (cases prev) simp_all
qed

text \<open>
  Claim C6, as the code has it. In every state a session reaches, the history begins with
  the instruction turn and no second one follows; turns are only appended: a
  retrieved-context turn only directly after a user turn, an assistant turn only
  directly after a retrieved-context turn, and the history of an earlier state is a
  prefix of every later one. The full ordering of the specification (user and assistant
  turns alternating, each retrieved-context turn between a user turn and its assistant
  turn) holds as long as every call has returned a reply; a call that raised leaves its
  user turn, or its user and retrieved-context turns, unanswered in the history.
\<close>

theorem chat_history_append_only:
  "(\<exists>ts. snd (chat_calls calls chat_history0) = system_instruction # ts
        \<and> appended_in_order SystemInstruction (map kind ts))
   \<and> prefix (snd (chat_calls calls chat_history0)) (snd (chat_calls (calls @ later) chat_history0))
   \<and> ((\<forall>r \<in> set (fst (chat_calls calls chat_history0)). \<not> isl r)
        \<longrightarrow> conversation_ordered (snd (chat_calls calls chat_history0)))"
proof -
  have "\<exists>ts. snd (chat_calls calls chat_history0) = system_instruction # ts
        \<and> appended_in_order SystemInstruction (map kind ts)"
    by (rule chat_calls_in_order [of _ "[]"]) (simp_all add: chat_history0_def)
  moreover have "prefix (snd (chat_calls calls chat_history0)) (snd (chat_calls (calls @ later) chat_history0))"
    by (simp only: chat_calls_append chat_calls_prefix)
  moreover have "conversation_ordered (snd (chat_calls calls chat_history0))"
    if "\<forall>r \<in> set (fst (chat_calls calls chat_history0)). \<not> isl r"
  proof -
    have "map kind (snd (chat_calls calls chat_history0))
      = SystemInstruction # concat (replicate (length calls) [UserInput, RetrievedContext, AssistantReply])"
      using chat_calls_kinds_replied [OF that] by (simp add: chat_history0_def)
    then show ?thesis
      by (simp add: conversation_ordered_def triples_no_instruction triples_alternate
          triples_context_between)
  qed
  ultimately show ?thesis by blast
qed

theorem chat_history_order_counterexample:
  "\<not> conversation_ordered (snd (chat_calls [(completion_down, ''a''), (services_up, ''b'')] chat_history0))"
  by (simp add: demo_defs conversation_ordered_def kind_def user_turn_def context_turn_def
      assistant_turn_def system_instruction_def)

theorem chat_history_append_only_witness:
  "conversation_ordered (snd (chat_calls [(services_up, ''a''), (services_up, ''b'')] chat_history0))
   \<and> prefix (snd (chat_calls [(completion_down, ''a'')] chat_history0))
        (snd (chat_calls [(completion_down, ''a''), (services_up, ''b'')] chat_history0))"
proof -
  have ok: "\<forall>r \<in> set (fst (chat_calls [(services_up, ''a''), (services_up, ''b'')] chat_history0)). \<not> isl r"
    by (simp add: demo_defs)
  show ?thesis
    using chat_history_append_only [of "[(services_up, ''a''), (services_up, ''b'')]" "[]"] ok
      chat_history_append_only [of "[(completion_down, ''a'')]" "[(services_up, ''b'')]"]
    by simp
qed

section \<open>The interactive loop\<close>

text \<open>
  Claim C7. In the loop, a line that is \<open>exit\<close> or \<open>quit\<close> in any mix of upper and lower
  case ends the loop with the line \<open>Chatbot: Goodbye!\<close> printed, \<open>chatbot\<close> not called and
  no further line read. Every other line is passed to \<open>chatbot\<close>; when it returns a
  reply, the reply is printed behind \<open>Chatbot: \<close> and the loop goes on with the next
  line, and when it raises, the exception ends the loop. \<open>chatbot\<close> itself treats every
  prompt alike, \<open>exit\<close> and \<open>quit\<close> included: it appends the prompt as a user turn and
  sends it to the embedding provider; a reply it returns is the answer of the completion
  API to the history extended by that user turn and the retrieved-context turn.
\<close>

theorem cli_loop_sentinels:
  "(lower user_input \<in> set [''exit'', ''quit'']
      \<longrightarrow> cli_loop ((env, user_input) # rest) h
            = (Goodbye, h, [Input ''You: '', Print ''Chatbot: Goodbye!'']))
   \<and> (lower user_input \<notin> set [''exit'', ''quit''] \<and> chatbot env user_input h = (Inr reply, h', tr)
      \<longrightarrow> cli_loop ((env, user_input) # rest) h
            = (fst (cli_loop rest h'), fst (snd (cli_loop rest h')),
               Input ''You: '' # tr @ Print (''Chatbot: '' @ reply) # snd (snd (cli_loop rest h'))))
   \<and> (lower user_input \<notin> set [''exit'', ''quit''] \<and> chatbot env user_input h = (Inl e, h', tr)
      \<longrightarrow> cli_loop ((env, user_input) # rest) h = (Raised e, h', Input ''You: '' # tr))
   \<and> (\<exists>ext tr'. fst (snd (chatbot env prompt h)) = h @ user_turn prompt # ext
          \<and> snd (snd (chatbot env prompt h)) = EmbeddingsCreate prompt # tr')
   \<and> (\<forall>answer. fst (chatbot env prompt h) = Inr answer
        \<longrightarrow> (\<exists>tweets. fst (snd (chatbot env prompt h))
                          = h @ [user_turn prompt, context_turn env tweets, assistant_turn answer]
                \<and> chat_completions_create env (h @ [user_turn prompt, context_turn env tweets])
                    = Inr answer))"
proof -
  have "\<exists>ext tr'. fst (snd (chatbot env prompt h)) = h @ user_turn prompt # ext
          \<and> snd (snd (chatbot env prompt h)) = EmbeddingsCreate prompt # tr'"
    by (auto simp: chatbot_def vector_search_def get_embedding_def Let_def split: sum.splits)
  moreover have "\<exists>tweets. fst (snd (chatbot env prompt h))
                          = h @ [user_turn prompt, context_turn env tweets, assistant_turn answer]
                \<and> chat_completions_create env (h @ [user_turn prompt, context_turn env tweets])
                    = Inr answer"
    if "fst (chatbot env prompt h) = Inr answer" for answer
    by (rule chatbot_outcomes [of env prompt h]) (use that in auto)
  ultimately show ?thesis
    by (auto split: prod.splits)
qed

theorem cli_loop_sentinels_witness:
  "cli_loop [(services_up, ''hello''), (services_up, ''QuIt''), (services_up, ''never read'')] chat_history0
     = (Goodbye,
        chat_history0 @ [user_turn ''hello'', context_turn services_up (Hits demo_hits), assistant_turn ''ok''],
        Input ''You: '' # snd (snd (chatbot services_up ''hello'' chat_history0))
          @ [Print ''Chatbot: ok'', Input ''You: '', Print ''Chatbot: Goodbye!''])
   \<and> cli_loop [(index_down, ''hello''), (services_up, ''never read'')] chat_history0
     = (Raised (PyException ''index unavailable''), chat_history0 @ [user_turn ''hello''],
        Input ''You: '' # snd (snd (chatbot index_down ''hello'' chat_history0)))
   \<and> fst (chatbot services_up ''quit'' chat_history0) = Inr ''ok''
   \<and> fst (snd (chatbot services_up ''quit'' chat_history0))
       = chat_history0 @ [user_turn ''quit'', context_turn services_up (Hits demo_hits), assistant_turn ''ok'']"
proof -
  let ?h' = "chat_history0 @ [user_turn ''hello'', context_turn services_up (Hits demo_hits), assistant_turn ''ok'']"
  have q: "lower ''QuIt'' \<in> set [''exit'', ''quit'']"
    by code_simp
  have nq: "lower ''hello'' \<notin> set [''exit'', ''quit'']"
    by code_simp
  have cb: "chatbot services_up ''hello'' chat_history0
     = (Inr ''ok'', ?h', snd (snd (chatbot services_up ''hello'' chat_history0)))"
    by (simp add: demo_defs vector_pipeline_def)
  have stop: "cli_loop [(services_up, ''QuIt''), (services_up, ''never read'')] ?h'
     = (Goodbye, ?h', [Input ''You: '', Print ''Chatbot: Goodbye!''])"
    using cli_loop_sentinels [where user_input = "''QuIt''" and env = services_up
        and rest = "[(services_up, ''never read'')]" and h = ?h'] q
    by blast
  have go: "cli_loop [(services_up, ''hello''), (services_up, ''QuIt''), (services_up, ''never read'')] chat_history0
     = (Goodbye, ?h',
        Input ''You: '' # snd (snd (chatbot services_up ''hello'' chat_history0))
          @ [Print ''Chatbot: ok'', Input ''You: '', Print ''Chatbot: Goodbye!''])"
    using cli_loop_sentinels [where user_input = "''hello''" and env = services_up
        and rest = "[(services_up, ''QuIt''), (services_up, ''never read'')]" and h = chat_history0
        and reply = "''ok''" and h' = ?h' and tr = "snd (snd (chatbot services_up ''hello'' chat_history0))"]
      nq cb
    by (simp del: cli_loop.simps add: stop)
  have cb': "chatbot index_down ''hello'' chat_history0
     = (Inl (PyException ''index unavailable''), chat_history0 @ [user_turn ''hello''],
        snd (snd (chatbot index_down ''hello'' chat_history0)))"
    by (simp add: demo_defs)
  have crash: "cli_loop [(index_down, ''hello''), (services_up, ''never read'')] chat_history0
     = (Raised (PyException ''index unavailable''), chat_history0 @ [user_turn ''hello''],
        Input ''You: '' # snd (snd (chatbot index_down ''hello'' chat_history0)))"
    using cli_loop_sentinels [where user_input = "''hello''" and env = index_down
        and rest = "[(services_up, ''never read'')]" and h = chat_history0
        and e = "PyException ''index unavailable''" and h' = "chat_history0 @ [user_turn ''hello'']"
        and tr = "snd (snd (chatbot index_down ''hello'' chat_history0))"]
      nq cb'
    by blast
  have r: "fst (chatbot services_up ''quit'' chat_history0) = Inr ''ok''"
    by (simp add: demo_defs)
  have c: "chat_completions_create services_up ms = Inr ''ok''" for ms
    by (simp add: services_up_def)
  have "\<exists>tweets. fst (snd (chatbot services_up ''quit'' chat_history0))
        = chat_history0 @ [user_turn ''quit'', context_turn services_up tweets, assistant_turn ''ok'']"
    using cli_loop_sentinels [where env = services_up and prompt = "''quit''" and h = chat_history0] r
    by blast
  moreover have "fst (snd (chatbot services_up ''quit'' chat_history0))
       = chat_history0 @ [user_turn ''quit'', context_turn services_up (Hits demo_hits), assistant_turn ''ok'']"
    by (simp add: demo_defs vector_pipeline_def)
  ultimately show ?thesis using go crash r by blast
qed

section \<open>Where the sanitizer is applied\<close>

lemma embedded_texts_append: "embedded_texts (a @ b) = embedded_texts a @ embedded_texts b"
  by (induction a rule: embedded_texts.induct) simp_all

lemma embedded_texts_get_embedding: "embedded_texts (snd (get_embedding env t)) = [t]"
  by (simp add: get_embedding_def split: sum.splits)

lemma embedded_texts_vector_search: "embedded_texts (snd (vector_search env q)) = [q]"
  by (auto simp: vector_search_def get_embedding_def embedded_texts_append split: sum.splits)

lemma embedded_texts_chatbot: "embedded_texts (snd (snd (chatbot env p h))) = [p]"
  by (rule chatbot_outcomes [of env p h])
    (use embedded_texts_vector_search [of env p] in \<open>auto simp: embedded_texts_append\<close>)

lemma embed_tweets_trace:
  "snd (embed_tweets env fault (d # ds) coll) =
     snd (get_embedding env (clean_tweet (tweet_text (doc_tweet d))))
     @ UpdateOne (tweet_id (doc_tweet d))
         (field_of (fst (get_embedding env (clean_tweet (tweet_text (doc_tweet d))))))
     # (case update_one fault coll (tweet_id (doc_tweet d))
               (field_of (fst (get_embedding env (clean_tweet (tweet_text (doc_tweet d)))))) of
          Inr coll' \<Rightarrow> snd (embed_tweets env fault ds coll')
        | Inl ex \<Rightarrow> Print (''error in embedding tweet '' @ tweet_id (doc_tweet d))
                    # snd (embed_tweets env fault ds coll))"
  by (simp split: prod.splits sum.splits)

lemma embedded_texts_embed_tweets:
  "embedded_texts (snd (embed_tweets env fault ds coll))
     = map (\<lambda>d. clean_tweet (tweet_text (doc_tweet d))) ds"
proof (induction ds arbitrary: coll)
  case Nil
  show ?case by simp
next
  case (Cons d ds)
  show ?case
    unfolding embed_tweets_trace
    by (simp add: embedded_texts_append embedded_texts_get_embedding Cons.IH split: sum.splits)
qed

lemma update_requests_append: "update_requests (a @ b) = update_requests a @ update_requests b"
  by (induction a rule: update_requests.induct) simp_all

lemma update_requests_get_embedding: "update_requests (snd (get_embedding env t)) = []"
  by (simp add: get_embedding_def split: sum.splits)

lemma update_requests_embed_tweets:
  "update_requests (snd (embed_tweets env fault ds coll))
     = map (\<lambda>d. (tweet_id (doc_tweet d),
                  field_of (fst (get_embedding env (clean_tweet (tweet_text (doc_tweet d))))))) ds"
proof (induction ds arbitrary: coll)
  case Nil
  show ?case by simp
next
  case (Cons d ds)
  show ?case
    unfolding embed_tweets_trace
    by (simp add: update_requests_append update_requests_get_embedding Cons.IH split: sum.splits)
qed

text \<open>
  Claim C8. The sanitizer is applied when the stored tweets are embedded and not to a
  live query. The backfill sends to the embedding provider, for each stored document in
  turn, the sanitized text of its tweet, and asks the collection to set for that tweet id
  the embedding so obtained (null when the provider failed). \<open>vector_search\<close>, and
  \<open>chatbot\<close> through it, sends the query itself, unchanged.
\<close>

theorem sanitizer_only_at_ingestion:
  "embedded_texts (snd (embed_collection env fault coll))
     = map (\<lambda>d. clean_tweet (tweet_text (doc_tweet d))) coll
   \<and> update_requests (snd (embed_collection env fault coll))
     = map (\<lambda>d. (tweet_id (doc_tweet d),
                  field_of (fst (get_embedding env (clean_tweet (tweet_text (doc_tweet d))))))) coll
   \<and> embedded_texts (snd (vector_search env query)) = [query]
   \<and> embedded_texts (snd (snd (chatbot env query h))) = [query]"
  by (simp add: embed_collection_def embedded_texts_embed_tweets update_requests_embed_tweets
      embedded_texts_vector_search embedded_texts_chatbot)

theorem sanitizer_only_at_ingestion_witness:
  "embedded_texts (snd (embed_collection services_up no_fault [\<lparr>doc_tweet = tweet1, doc_user = alice\<rparr>]))
     = [''see  now'']
   \<and> embedded_texts (snd (vector_search services_up ''see https://example.com/x now''))
     = [''see https://example.com/x now'']
   \<and> clean_tweet ''see https://example.com/x now'' \<noteq> ''see https://example.com/x now''"
proof -
  have c: "clean_tweet ''see https://example.com/x now'' = ''see  now''"
    by code_simp
  show ?thesis
    using sanitizer_only_at_ingestion [of services_up no_fault
        "[\<lparr>doc_tweet = tweet1, doc_user = alice\<rparr>]" "''see https://example.com/x now''"]
    by (simp del: clean_tweet.simps add: tweet1_def c)
qed

section \<open>Properties of the ingestion\<close>

lemma store_pairs_Cons:
  "store_pairs fault ((u, t) # rest) coll =
     (case insert_one fault coll \<lparr>doc_tweet = t, doc_user = u\<rparr> of
        Inr coll' \<Rightarrow> (fst (store_pairs fault rest coll'),
                      InsertOne \<lparr>doc_tweet = t, doc_user = u\<rparr> # Print (created_at t)
                        # snd (store_pairs fault rest coll'))
      | Inl e \<Rightarrow> (fst (store_pairs fault rest coll),
                  InsertOne \<lparr>doc_tweet = t, doc_user = u\<rparr> # snd (store_pairs fault rest coll)))"
  by (simp add: Let_def split: prod.splits sum.splits)

lemma insert_one_cases:
  "insert_one fault coll d = Inr coll' \<longleftrightarrow>
     fault (tweet_id (doc_tweet d)) = None \<and> tweet_id (doc_tweet d) \<notin> set (stored_ids coll)
     \<and> coll' = coll @ [d]"
  by (auto simp: insert_one_def split: option.splits)

lemma insert_attempts_store_pairs:
  "insert_attempts (snd (store_pairs fault pairs coll)) = map mk_doc pairs"
proof (induction pairs arbitrary: coll)
  case Nil
  show ?case by simp
next
  case (Cons p pairs)
  obtain u t where p: "p = (u, t)" by (cases p)
  show ?case
    unfolding p store_pairs_Cons by (simp add: Cons.IH mk_doc_def split: sum.splits)
qed

lemma store_pairs_distinct:
  "distinct (stored_ids coll) \<Longrightarrow> distinct (stored_ids (fst (store_pairs fault pairs coll)))"
proof (induction pairs arbitrary: coll)
  case Nil
  then show ?case by simp
next
  case (Cons p pairs)
  obtain u t where p: "p = (u, t)" by (cases p)
  show ?case
  proof (cases "insert_one fault coll \<lparr>doc_tweet = t, doc_user = u\<rparr>")
    case (Inl e)
    with Cons show ?thesis unfolding p store_pairs_Cons by simp
  next
    case (Inr coll')
    then have "distinct (stored_ids coll')"
      using Cons.prems by (auto simp: insert_one_cases stored_ids_def)
    with Cons.IH Inr show ?thesis unfolding p store_pairs_Cons by simp
  qed
qed

lemma store_pairs_keeps: "set (stored_ids coll) \<subseteq> set (stored_ids (fst (store_pairs fault pairs coll)))"
proof (induction pairs arbitrary: coll)
  case Nil
  show ?case by simp
next
  case (Cons p pairs)
  obtain u t where p: "p = (u, t)" by (cases p)
  show ?case
  proof (cases "insert_one fault coll \<lparr>doc_tweet = t, doc_user = u\<rparr>")
    case (Inl e)
    with Cons show ?thesis unfolding p store_pairs_Cons by simp
  next
    case (Inr coll')
    then have "set (stored_ids coll) \<subseteq> set (stored_ids coll')"
      by (auto simp: insert_one_cases stored_ids_def)
    with Cons.IH [of coll'] Inr show ?thesis unfolding p store_pairs_Cons by auto
  qed
qed

lemma store_pairs_stores:
  assumes "(u, t) \<in> set pairs" "fault (tweet_id t) = None"
  shows "tweet_id t \<in> set (stored_ids (fst (store_pairs fault pairs coll)))"
  using assms
proof (induction pairs arbitrary: coll)
  case Nil
  then show ?case by simp
next
  case (Cons p pairs)
  obtain u' t' where p: "p = (u', t')" by (cases p)
  show ?case
  proof (cases "(u, t) = (u', t')")
    case False
    with Cons.prems p have "(u, t) \<in> set pairs" by auto
    from Cons.IH [OF this Cons.prems(2)] show ?thesis
      unfolding p store_pairs_Cons by (simp split: sum.splits)
  next
    case True
    show ?thesis
    proof (cases "insert_one fault coll \<lparr>doc_tweet = t', doc_user = u'\<rparr>")
      case (Inr coll')
      then have "tweet_id t \<in> set (stored_ids coll')"
        using True by (auto simp: insert_one_cases stored_ids_def)
      with store_pairs_keeps [of coll' fault pairs] Inr show ?thesis
        unfolding p store_pairs_Cons by auto
    next
      case (Inl e)
      then have "tweet_id t \<in> set (stored_ids coll)"
        using True Cons.prems(2) by (auto simp: insert_one_def split: option.splits if_splits)
      with store_pairs_keeps [of coll fault pairs] Inl show ?thesis
        unfolding p store_pairs_Cons by auto
    qed
  qed
qed

lemma store_pairs_again:
  assumes "\<forall>(u, t) \<in> set pairs. fault (tweet_id t) \<noteq> None \<or> tweet_id t \<in> set (stored_ids coll)"
  shows "store_pairs fault pairs coll = (coll, map (\<lambda>p. InsertOne (mk_doc p)) pairs)"
  using assms
proof (induction pairs)
  case Nil
  show ?case by simp
next
  case (Cons p pairs)
  obtain u t where p: "p = (u, t)" by (cases p)
  from Cons.prems p have "\<exists>e. insert_one fault coll \<lparr>doc_tweet = t, doc_user = u\<rparr> = Inl e"
    by (auto simp: insert_one_def split: option.splits)
  then obtain e where "insert_one fault coll \<lparr>doc_tweet = t, doc_user = u\<rparr> = Inl e" ..
  moreover have "store_pairs fault pairs coll = (coll, map (\<lambda>p. InsertOne (mk_doc p)) pairs)"
    using Cons by simp
  ultimately show ?case
    unfolding p store_pairs_Cons by (simp add: mk_doc_def)
qed

lemma insert_one_twice:
  assumes "insert_one fault coll d = Inr c" "tweet_id (doc_tweet d') = tweet_id (doc_tweet d)"
  shows "insert_one fault c d' = Inl DuplicateKeyError"
proof -
  from assms(1) have "fault (tweet_id (doc_tweet d)) = None" "c = coll @ [d]"
    by (simp_all add: insert_one_cases)
  then show ?thesis
    using assms(2) by (simp add: insert_one_def stored_ids_def)
qed

lemma no_document_for_id:
  "tid \<notin> set (stored_ids coll) \<Longrightarrow> filter (\<lambda>d. tweet_id (doc_tweet d) = tid) coll = []"
  by (induction coll) (auto simp: stored_ids_def)

lemma one_document_per_id:
  assumes "distinct (stored_ids coll)" "tid \<in> set (stored_ids coll)"
  shows "length (filter (\<lambda>d. tweet_id (doc_tweet d) = tid) coll) = 1"
  using assms
proof (induction coll)
  case Nil
  then show ?case by (simp add: stored_ids_def)
next
  case (Cons d coll)
  show ?case
  proof (cases "tweet_id (doc_tweet d) = tid")
    case True
    with Cons.prems(1) have "tid \<notin> set (stored_ids coll)"
      by (simp add: stored_ids_def)
    from no_document_for_id [OF this] True show ?thesis by simp
  next
    case False
    with Cons.prems have "distinct (stored_ids coll)" "tid \<in> set (stored_ids coll)"
      by (auto simp: stored_ids_def)
    from Cons.IH [OF this] False show ?thesis by simp
  qed
qed

text \<open>
  Claim C9. On a collection whose tweet ids are unique, as the unique index makes them,
  storing a page keeps them unique: once a document is inserted, a further insert with
  the same tweet id raises \<open>DuplicateKeyError\<close>, and for every tweet of the page whose
  insert did not fail in transport exactly one document with its id is stored, however
  often the id occurs. Storing the same page again changes nothing. The exception of a
  duplicate insert is swallowed: the loop tries every pair of the page, and the second
  run of a page prints nothing.
\<close>

theorem ingestion_idempotent_on_tweet_id:
  assumes "distinct (stored_ids coll)"
  shows "distinct (stored_ids (fst (store_page fault users data coll)))
    \<and> (\<forall>(u, t) \<in> set (zip users data). fault (tweet_id t) = None
          \<longrightarrow> length (filter (\<lambda>d. tweet_id (doc_tweet d) = tweet_id t)
                         (fst (store_page fault users data coll))) = 1)
    \<and> store_page fault users data (fst (store_page fault users data coll))
        = (fst (store_page fault users data coll),
           map (\<lambda>p. InsertOne (mk_doc p)) (zip users data))
    \<and> insert_attempts (snd (store_page fault users data coll)) = map mk_doc (zip users data)
    \<and> (\<forall>d d' c. insert_one fault coll d = Inr c \<and> tweet_id (doc_tweet d') = tweet_id (doc_tweet d)
          \<longrightarrow> insert_one fault c d' = Inl DuplicateKeyError)"
proof -
  let ?c = "fst (store_page fault users data coll)"
  have d: "distinct (stored_ids ?c)"
    unfolding store_page_def by (rule store_pairs_distinct [OF assms])
  have s: "tweet_id t \<in> set (stored_ids ?c)"
    if "(u, t) \<in> set (zip users data)" "fault (tweet_id t) = None" for u t
    unfolding store_page_def using that by (rule store_pairs_stores)
  have "length (filter (\<lambda>d. tweet_id (doc_tweet d) = tweet_id t) ?c) = 1"
    if "(u, t) \<in> set (zip users data)" "fault (tweet_id t) = None" for u t
    by (rule one_document_per_id [OF d s [OF that]])
  moreover have "store_page fault users data ?c = (?c, map (\<lambda>p. InsertOne (mk_doc p)) (zip users data))"
    unfolding store_page_def [of fault users data ?c]
    by (rule store_pairs_again) (use s in auto)
  moreover have "insert_attempts (snd (store_page fault users data coll)) = map mk_doc (zip users data)"
    unfolding store_page_def by (rule insert_attempts_store_pairs)
  moreover have "insert_one fault c d' = Inl DuplicateKeyError"
    if "insert_one fault coll d = Inr c" "tweet_id (doc_tweet d') = tweet_id (doc_tweet d)" for d d' c
    using that by (rule insert_one_twice)
  ultimately show ?thesis using d by blast
qed

theorem ingestion_idempotent_on_tweet_id_witness:
  "distinct (stored_ids [])
   \<and> fst (store_page no_fault [alice, alice] [tweet1, tweet1] [])
       = [\<lparr>doc_tweet = tweet1, doc_user = alice\<rparr>]
   \<and> length (filter (\<lambda>d. tweet_id (doc_tweet d) = tweet_id tweet1)
        (fst (store_page no_fault [alice, alice] [tweet1, tweet1] []))) = 1
   \<and> insert_attempts (snd (store_page no_fault [alice, alice] [tweet1, tweet1] []))
       = [\<lparr>doc_tweet = tweet1, doc_user = alice\<rparr>, \<lparr>doc_tweet = tweet1, doc_user = alice\<rparr>]
   \<and> insert_one no_fault [] \<lparr>doc_tweet = tweet1, doc_user = alice\<rparr>
       = Inr [\<lparr>doc_tweet = tweet1, doc_user = alice\<rparr>]
   \<and> insert_one no_fault [\<lparr>doc_tweet = tweet1, doc_user = alice\<rparr>] \<lparr>doc_tweet = tweet1, doc_user = bob\<rparr>
       = Inl DuplicateKeyError"
proof -
  have d: "distinct (stored_ids [])"
    by (simp add: stored_ids_def)
  have z: "(alice, tweet1) \<in> set (zip [alice, alice] [tweet1, tweet1])"
    by simp
  have f: "no_fault (tweet_id tweet1) = None"
    by (simp add: no_fault_def)
  have s: "fst (store_page no_fault [alice, alice] [tweet1, tweet1] [])
       = [\<lparr>doc_tweet = tweet1, doc_user = alice\<rparr>]"
    by (simp add: store_page_def insert_one_def no_fault_def stored_ids_def Let_def)
  note page = ingestion_idempotent_on_tweet_id [OF d, of no_fault "[alice, alice]" "[tweet1, tweet1]"]
  from bspec [OF page [THEN conjunct2, THEN conjunct1] z] f
  have "length (filter (\<lambda>d. tweet_id (doc_tweet d) = tweet_id tweet1)
        (fst (store_page no_fault [alice, alice] [tweet1, tweet1] []))) = 1"
    by simp
  moreover from page [THEN conjunct2, THEN conjunct2, THEN conjunct2, THEN conjunct1]
  have "insert_attempts (snd (store_page no_fault [alice, alice] [tweet1, tweet1] []))
       = map mk_doc (zip [alice, alice] [tweet1, tweet1])" .
  ultimately have "length (filter (\<lambda>d. tweet_id (doc_tweet d) = tweet_id tweet1)
        (fst (store_page no_fault [alice, alice] [tweet1, tweet1] []))) = 1"
    and "insert_attempts (snd (store_page no_fault [alice, alice] [tweet1, tweet1] []))
       = map mk_doc (zip [alice, alice] [tweet1, tweet1])"
    by simp_all
  moreover have ins: "insert_one no_fault [] \<lparr>doc_tweet = tweet1, doc_user = alice\<rparr>
       = Inr [\<lparr>doc_tweet = tweet1, doc_user = alice\<rparr>]"
    by (simp add: insert_one_def no_fault_def stored_ids_def)
  moreover have same: "tweet_id (doc_tweet \<lparr>doc_tweet = tweet1, doc_user = bob\<rparr>)
       = tweet_id (doc_tweet \<lparr>doc_tweet = tweet1, doc_user = alice\<rparr>)"
    by simp
  moreover from page [THEN conjunct2, THEN conjunct2, THEN conjunct2, THEN conjunct2,
      THEN spec, THEN spec, THEN spec, THEN mp, OF conjI [OF ins same]]
  have "insert_one no_fault [\<lparr>doc_tweet = tweet1, doc_user = alice\<rparr>] \<lparr>doc_tweet = tweet1, doc_user = bob\<rparr>
       = Inl DuplicateKeyError" .
  ultimately show ?thesis
    using d s by (simp add: mk_doc_def)
qed

lemma store_pairs_subset:
  "set (fst (store_pairs fault pairs coll)) \<subseteq> set coll \<union> set (map mk_doc pairs)"
proof (induction pairs arbitrary: coll)
  case Nil
  show ?case by simp
next
  case (Cons p pairs)
  obtain u t where p: "p = (u, t)" by (cases p)
  show ?case
  proof (cases "insert_one fault coll \<lparr>doc_tweet = t, doc_user = u\<rparr>")
    case (Inl e)
    with Cons.IH [of coll] show ?thesis
      unfolding p store_pairs_Cons by auto
  next
    case (Inr coll')
    then have "coll' = coll @ [mk_doc (u, t)]"
      by (simp add: insert_one_cases mk_doc_def)
    with Cons.IH [of coll'] Inr show ?thesis
      unfolding p store_pairs_Cons by auto
  qed
qed

text \<open>
  Claim C10. The loop pairs users and tweets by position: for a page it tries to insert
  min(number of included users, number of tweets) documents, the i-th made of the i-th
  tweet and the i-th included user, and nothing else reaches the collection. So when the
  response has fewer user objects than tweets, the tweets behind the last user are
  dropped without a message, and a tweet can be stored with a user who is not its author.
\<close>

theorem zip_pairs_user_and_tweet_by_position:
  "insert_attempts (snd (store_page fault users data coll)) = map mk_doc (zip users data)
   \<and> length (insert_attempts (snd (store_page fault users data coll)))
       = min (length users) (length data)
   \<and> (\<forall>i < min (length users) (length data).
         insert_attempts (snd (store_page fault users data coll)) ! i
           = \<lparr>doc_tweet = data ! i, doc_user = users ! i\<rparr>)
   \<and> set (fst (store_page fault users data coll))
       \<subseteq> set coll \<union> set (map mk_doc (zip users data))
   \<and> (\<exists>some_users page d t.
         length some_users < length page
         \<and> d \<in> set (fst (store_page no_fault some_users page []))
         \<and> author_id (doc_tweet d) \<noteq> user_id (doc_user d)
         \<and> t \<in> set page
         \<and> t \<notin> set (map doc_tweet (fst (store_page no_fault some_users page []))))"
proof -
  have a: "insert_attempts (snd (store_page fault users data coll)) = map mk_doc (zip users data)"
    unfolding store_page_def by (rule insert_attempts_store_pairs)
  have "length (insert_attempts (snd (store_page fault users data coll)))
       = min (length users) (length data)"
    unfolding a by simp
  moreover have "insert_attempts (snd (store_page fault users data coll)) ! i
           = \<lparr>doc_tweet = data ! i, doc_user = users ! i\<rparr>"
    if "i < min (length users) (length data)" for i
    unfolding a using that by (simp add: mk_doc_def)
  moreover have "set (fst (store_page fault users data coll))
       \<subseteq> set coll \<union> set (map mk_doc (zip users data))"
    unfolding store_page_def by (rule store_pairs_subset)
  moreover have "length [alice, bob] < length [tweet1, tweet2, tweet3]
         \<and> \<lparr>doc_tweet = tweet2, doc_user = bob\<rparr> \<in> set (fst (store_page no_fault [alice, bob] [tweet1, tweet2, tweet3] []))
         \<and> author_id (doc_tweet \<lparr>doc_tweet = tweet2, doc_user = bob\<rparr>)
             \<noteq> user_id (doc_user \<lparr>doc_tweet = tweet2, doc_user = bob\<rparr>)
         \<and> tweet3 \<in> set [tweet1, tweet2, tweet3]
         \<and> tweet3 \<notin> set (map doc_tweet (fst (store_page no_fault [alice, bob] [tweet1, tweet2, tweet3] [])))"
    by (simp add: store_page_def insert_one_def no_fault_def stored_ids_def Let_def
        tweet1_def tweet2_def tweet3_def alice_def bob_def)
  ultimately show ?thesis using a by blast
qed

theorem zip_pairs_user_and_tweet_by_position_witness:
  "insert_attempts (snd (store_page no_fault [alice, bob] [tweet1, tweet2, tweet3] []))
     = [\<lparr>doc_tweet = tweet1, doc_user = alice\<rparr>, \<lparr>doc_tweet = tweet2, doc_user = bob\<rparr>]
   \<and> (1::nat) < min (length [alice, bob]) (length [tweet1, tweet2, tweet3])
   \<and> insert_attempts (snd (store_page no_fault [alice, bob] [tweet1, tweet2, tweet3] [])) ! 1
     = \<lparr>doc_tweet = tweet2, doc_user = bob\<rparr>
   \<and> author_id tweet2 = user_id alice \<and> author_id tweet2 \<noteq> user_id bob"
proof -
  note page = zip_pairs_user_and_tweet_by_position [of no_fault "[alice, bob]" "[tweet1, tweet2, tweet3]" "[]"]
  have i: "(1::nat) < min (length [alice, bob]) (length [tweet1, tweet2, tweet3])"
    by simp
  from page [THEN conjunct1]
  have "insert_attempts (snd (store_page no_fault [alice, bob] [tweet1, tweet2, tweet3] []))
     = [\<lparr>doc_tweet = tweet1, doc_user = alice\<rparr>, \<lparr>doc_tweet = tweet2, doc_user = bob\<rparr>]"
    by (simp add: mk_doc_def)
  moreover from page [THEN conjunct2, THEN conjunct2, THEN conjunct1, rule_format, OF i]
  have "insert_attempts (snd (store_page no_fault [alice, bob] [tweet1, tweet2, tweet3] [])) ! 1
     = \<lparr>doc_tweet = tweet2, doc_user = bob\<rparr>"
    by simp
  moreover have "author_id tweet2 = user_id alice \<and> author_id tweet2 \<noteq> user_id bob"
    by (simp add: tweet2_def alice_def bob_def)
  ultimately show ?thesis using i by blast
qed

end
